theory Spec2Isabelle
  imports Main "HOL-Library.Word"
begin

section \<open>The buffer cache of bio.c\<close>

subsection \<open>Data model\<close>

text \<open>
  \<^verbatim>\<open>typedef unsigned int uint;\<close> is a 32-bit word whose arithmetic wraps. The \<^verbatim>\<open>int\<close>
  flags are 32-bit words too: the code only stores 0 or 1 in them and compares them with
  0 and 1 for equality, so their sign is never read.
\<close>

type_synonym uint = "32 word"
type_synonym cint = "32 word"

text \<open>\<^verbatim>\<open>#define NBUF 3\<close>\<close>

definition NBUF :: nat where
  "NBUF = 3"

text \<open>
  A \<^verbatim>\<open>struct buf *\<close> is the null pointer, the address of \<^verbatim>\<open>bcache.head\<close>, or the address
  of \<^verbatim>\<open>bcache.buf[i]\<close>.
\<close>

datatype ptr = Null | Head | Buf nat

text \<open>
  \<^verbatim>\<open>struct buf\<close>. The fields \<^verbatim>\<open>qnext\<close> and \<^verbatim>\<open>data\<close> are left out: no function of bio.c
  reads or writes them.
\<close>

record buf =
  valid :: cint
  dirty :: cint
  dev :: uint
  blockno :: uint
  lock :: cint
  refcnt :: uint
  prev :: ptr
  "next" :: ptr

text \<open>
  The global \<^verbatim>\<open>bcache\<close>: its lock flag, the array \<^verbatim>\<open>buf[NBUF]\<close> and the sentinel
  \<^verbatim>\<open>head\<close>. The last field is not in the C struct: it records, newest first, the
  argument of every call of \<^verbatim>\<open>iderw\<close>, so that statements about which device
  operations were issued can be written down.
\<close>

record bcache =
  bcache_lock :: cint
  bcache_buf :: "buf list"
  bcache_head :: buf
  iderw_calls :: "ptr list"

text \<open>
  Two ways a C function of bio.c stops without returning: the jump to \<^verbatim>\<open>ERROR\<close>
  (\<^verbatim>\<open>__VERIFIER_error()\<close>, which does not return), and the dereference of a pointer that
  does not point to a \<^verbatim>\<open>struct buf\<close>.
\<close>

datatype error = VERIFIER_error | NullDeref | OutOfBounds

definition bindE :: "error + 'a \<Rightarrow> ('a \<Rightarrow> error + 'b) \<Rightarrow> error + 'b" where
  "bindE m f = (case m of Inl e \<Rightarrow> Inl e | Inr x \<Rightarrow> f x)"

text \<open>Statements executed one after the other; the first error ends the sequence.\<close>

fun seqE :: "('s \<Rightarrow> error + 's) list \<Rightarrow> 's \<Rightarrow> error + 's" where
  "seqE [] s = Inr s"
| "seqE (c # cs) s = (case c s of Inl e \<Rightarrow> Inl e | Inr s' \<Rightarrow> seqE cs s')"

text \<open>Reading \<^verbatim>\<open>*p\<close> and writing through \<^verbatim>\<open>p\<close>.\<close>

fun rd :: "bcache \<Rightarrow> ptr \<Rightarrow> error + buf" where
  "rd s Null = Inl NullDeref"
| "rd s Head = Inr (bcache_head s)"
| "rd s (Buf i) = (if i < length (bcache_buf s) then Inr (bcache_buf s ! i) else Inl OutOfBounds)"

fun upd :: "ptr \<Rightarrow> (buf \<Rightarrow> buf) \<Rightarrow> bcache \<Rightarrow> error + bcache" where
  "upd Null f s = Inl NullDeref"
| "upd Head f s = Inr (s\<lparr>bcache_head := f (bcache_head s)\<rparr>)"
| "upd (Buf i) f s =
     (if i < length (bcache_buf s)
      then Inr (s\<lparr>bcache_buf := (bcache_buf s)[i := f (bcache_buf s ! i)]\<rparr>)
      else Inl OutOfBounds)"

text \<open>The jump to \<^verbatim>\<open>ERROR\<close> when a condition holds.\<close>

definition error_if :: "bool \<Rightarrow> 's \<Rightarrow> error + 's" where
  "error_if c s = (if c then Inl VERIFIER_error else Inr s)"

subsection \<open>brelse\<close>

text \<open>
  The six assignments that unlink \<^verbatim>\<open>b\<close> and put it behind \<^verbatim>\<open>bcache.head\<close>
  (lines 286 to 291).
\<close>

definition brelse_move :: "ptr \<Rightarrow> bcache \<Rightarrow> error + bcache" where
  "brelse_move b = seqE
     [\<lambda>s. bindE (rd s b) (\<lambda>x. upd (next x) (\<lambda>y. y\<lparr>prev := prev x\<rparr>) s),
      \<lambda>s. bindE (rd s b) (\<lambda>x. upd (prev x) (\<lambda>y. y\<lparr>next := next x\<rparr>) s),
      \<lambda>s. upd b (\<lambda>y. y\<lparr>next := next (bcache_head s)\<rparr>) s,
      \<lambda>s. upd b (\<lambda>y. y\<lparr>prev := Head\<rparr>) s,
      \<lambda>s. upd (next (bcache_head s)) (\<lambda>y. y\<lparr>prev := b\<rparr>) s,
      \<lambda>s. Inr (s\<lparr>bcache_head := (bcache_head s)\<lparr>next := b\<rparr>\<rparr>)]"

text \<open>The checks of lines 295 to 308, with \<^verbatim>\<open>mru\<close> the value saved at line 283.\<close>

definition brelse_check :: "ptr \<Rightarrow> ptr \<Rightarrow> bcache \<Rightarrow> error + bcache" where
  "brelse_check b mru = seqE
     [\<lambda>s. error_if (next (bcache_head s) \<noteq> b) s,
      \<lambda>s. bindE (rd s b) (\<lambda>x. error_if (prev x \<noteq> Head) s),
      \<lambda>s. bindE (rd s b) (\<lambda>x. error_if (next x \<noteq> mru) s),
      \<lambda>s. bindE (rd s mru) (\<lambda>x. error_if (prev x \<noteq> b) s)]"

definition brelse :: "ptr \<Rightarrow> bcache \<Rightarrow> error + bcache" where
  "brelse b s0 =
     (if bcache_lock s0 = 1 then Inl VERIFIER_error
      else
        bindE (upd b (\<lambda>y. y\<lparr>refcnt := refcnt y - 1\<rparr>) (s0\<lparr>bcache_lock := 1\<rparr>)) (\<lambda>s1.
        let mru = next (bcache_head s1) in
        bindE (bindE (rd s1 b) (\<lambda>x. if refcnt x = 0 then brelse_move b s1 else Inr s1)) (\<lambda>s2.
        bindE (bindE (rd s2 b) (\<lambda>x. if refcnt x = 0 then brelse_check b mru s2 else Inr s2)) (\<lambda>s3.
        if bcache_lock s3 = 0 then Inl VERIFIER_error
        else Inr (s3\<lparr>bcache_lock := 0\<rparr>)))))"

subsection \<open>binit\<close>

text \<open>The body of the first loop of \<^verbatim>\<open>binit\<close> (lines 82 to 86).\<close>

definition binit_link :: "ptr \<Rightarrow> bcache \<Rightarrow> error + bcache" where
  "binit_link b = seqE
     [\<lambda>s. upd b (\<lambda>y. y\<lparr>next := next (bcache_head s)\<rparr>) s,
      \<lambda>s. upd b (\<lambda>y. y\<lparr>prev := Head\<rparr>) s,
      \<lambda>s. upd b (\<lambda>y. y\<lparr>lock := 0\<rparr>) s,
      \<lambda>s. upd (next (bcache_head s)) (\<lambda>y. y\<lparr>prev := b\<rparr>) s,
      \<lambda>s. Inr (s\<lparr>bcache_head := (bcache_head s)\<lparr>next := b\<rparr>\<rparr>)]"

text \<open>
  \<^verbatim>\<open>for(b = bcache.buf; b < &bcache.buf[NBUF]; b++)\<close>: the pointer \<^verbatim>\<open>b\<close> is
  \<^verbatim>\<open>&bcache.buf[i]\<close> for the index \<open>i\<close>.
\<close>

function binit_loop :: "nat \<Rightarrow> bcache \<Rightarrow> error + bcache" where
  "binit_loop i s =
     (if i < NBUF
      then (case binit_link (Buf i) s of Inl e \<Rightarrow> Inl e | Inr s' \<Rightarrow> binit_loop (Suc i) s')
      else Inr s)"
  by pat_completeness auto
termination
  by (relation "measure (\<lambda>(i, s). NBUF - i)") auto

text \<open>The body of the second loop (lines 98 to 119): the checks on \<^verbatim>\<open>buf[i]\<close>.\<close>

definition binit_check_buf :: "nat \<Rightarrow> bcache \<Rightarrow> error + bcache" where
  "binit_check_buf i =
     (if i = 0 then seqE
        [\<lambda>s. bindE (rd s (Buf i)) (\<lambda>x. error_if (next x \<noteq> Head) s),
         \<lambda>s. bindE (rd s (Buf i)) (\<lambda>x. error_if (prev x \<noteq> Buf (i + 1)) s)]
      else if i = NBUF - 1 then seqE
        [\<lambda>s. bindE (rd s (Buf i)) (\<lambda>x. error_if (next x \<noteq> Buf (i - 1)) s),
         \<lambda>s. bindE (rd s (Buf i)) (\<lambda>x. error_if (prev x \<noteq> Head) s)]
      else seqE
        [\<lambda>s. bindE (rd s (Buf i)) (\<lambda>x. error_if (next x \<noteq> Buf (i - 1)) s),
         \<lambda>s. bindE (rd s (Buf i)) (\<lambda>x. error_if (prev x \<noteq> Buf (i + 1)) s)])"

function binit_check :: "nat \<Rightarrow> bcache \<Rightarrow> error + bcache" where
  "binit_check i s =
     (if i < NBUF
      then (case binit_check_buf i s of Inl e \<Rightarrow> Inl e | Inr s' \<Rightarrow> binit_check (Suc i) s')
      else Inr s)"
  by pat_completeness auto
termination
  by (relation "measure (\<lambda>(i, s). NBUF - i)") auto

definition binit :: "bcache \<Rightarrow> error + bcache" where
  "binit = seqE
     [\<lambda>s. Inr (s\<lparr>bcache_lock := 0\<rparr>),
      \<lambda>s. Inr (s\<lparr>bcache_head := (bcache_head s)\<lparr>prev := Head\<rparr>\<rparr>),
      \<lambda>s. Inr (s\<lparr>bcache_head := (bcache_head s)\<lparr>next := Head\<rparr>\<rparr>),
      binit_loop 0,
      \<lambda>s. error_if (next (bcache_head s) \<noteq> Buf (NBUF - 1)) s,
      \<lambda>s. error_if (prev (bcache_head s) \<noteq> Buf 0) s,
      binit_check 0]"

subsection \<open>bget\<close>

text \<open>
  Both loops of \<^verbatim>\<open>bget\<close> walk the list from a first slot until \<^verbatim>\<open>b == &bcache.head\<close>,
  following one link field, and leave the loop early at the first slot that passes a
  test. \<open>scan\<close> returns the value of \<^verbatim>\<open>b\<close> at which the loop stops: \<open>Head\<close> when
  the loop ran to its end. On a list whose links never lead back to the sentinel the
  loop does not stop, and the value is \<open>None\<close>.
\<close>

partial_function (option) scan ::
  "(buf \<Rightarrow> ptr) \<Rightarrow> (buf \<Rightarrow> bool) \<Rightarrow> bcache \<Rightarrow> ptr \<Rightarrow> (error + ptr) option" where
  "scan link test s b =
     (if b = Head then Some (Inr Head)
      else (case rd s b of
              Inl e \<Rightarrow> Some (Inl e)
            | Inr x \<Rightarrow> if test x then Some (Inr b) else scan link test s (link x)))"

declare scan.simps [code]

text \<open>The test of line 152: the slot is bound to the wanted block.\<close>

definition is_cached :: "uint \<Rightarrow> uint \<Rightarrow> buf \<Rightarrow> bool" where
  "is_cached dev blockno x = (buf.dev x = dev \<and> buf.blockno x = blockno)"
  for dev blockno

text \<open>
  The test of line 169, \<^verbatim>\<open>b->refcnt == 0 && (b->dirty == 1)\<close>: the slot may be
  recycled.
\<close>

definition is_recyclable :: "buf \<Rightarrow> bool" where
  "is_recyclable x = (refcnt x = 0 \<and> dirty x = 1)"

text \<open>Line 151: from \<^verbatim>\<open>bcache.head.next\<close> along \<^verbatim>\<open>next\<close>.\<close>

definition bget_cached :: "uint \<Rightarrow> uint \<Rightarrow> bcache \<Rightarrow> (error + ptr) option" where
  "bget_cached dev blockno s = scan next (is_cached dev blockno) s (next (bcache_head s))"
  for dev blockno

text \<open>Line 168: from \<^verbatim>\<open>bcache.head.prev\<close> along \<^verbatim>\<open>prev\<close>.\<close>

definition bget_recycle :: "bcache \<Rightarrow> (error + ptr) option" where
  "bget_recycle s = scan prev is_recyclable s (prev (bcache_head s))"

text \<open>
  Lines 153 to 161. The source writes \<^verbatim>\<open>b.lock = 1\<close> for the commented-out
  \<^verbatim>\<open>acquiresleep(&b->lock)\<close>, with \<^verbatim>\<open>b\<close> a pointer; it is taken as \<^verbatim>\<open>b->lock = 1\<close>.
\<close>

definition bget_hit :: "ptr \<Rightarrow> bcache \<Rightarrow> error + ptr \<times> bcache" where
  "bget_hit b s0 = bindE (seqE
     [\<lambda>s. upd b (\<lambda>y. y\<lparr>refcnt := refcnt y + 1\<rparr>) s,
      \<lambda>s. error_if (bcache_lock s = 0) s,
      \<lambda>s. Inr (s\<lparr>bcache_lock := 0\<rparr>),
      \<lambda>s. upd b (\<lambda>y. y\<lparr>lock := 1\<rparr>) s] s0) (\<lambda>s. Inr (b, s))"

text \<open>Lines 170 to 182.\<close>

definition bget_rebind :: "uint \<Rightarrow> uint \<Rightarrow> ptr \<Rightarrow> bcache \<Rightarrow> error + ptr \<times> bcache" where
  "bget_rebind dev blockno b s0 = bindE (seqE
     [\<lambda>s. upd b (\<lambda>y. y\<lparr>buf.dev := dev\<rparr>) s,
      \<lambda>s. upd b (\<lambda>y. y\<lparr>buf.blockno := blockno\<rparr>) s,
      \<lambda>s. upd b (\<lambda>y. y\<lparr>dirty := 0\<rparr>) s,
      \<lambda>s. upd b (\<lambda>y. y\<lparr>valid := 0\<rparr>) s,
      \<lambda>s. upd b (\<lambda>y. y\<lparr>refcnt := 1\<rparr>) s,
      \<lambda>s. error_if (bcache_lock s = 0) s,
      \<lambda>s. Inr (s\<lparr>bcache_lock := 0\<rparr>),
      \<lambda>s. upd b (\<lambda>y. y\<lparr>lock := 1\<rparr>) s] s0) (\<lambda>s. Inr (b, s))"
  for dev blockno

text \<open>
  \<^verbatim>\<open>bget\<close> returns a pointer and leaves a state; \<^verbatim>\<open>return 0\<close> at line 186 returns the
  null pointer, with \<^verbatim>\<open>bcache.lock\<close> as line 148 set it.
\<close>

definition bget :: "uint \<Rightarrow> uint \<Rightarrow> bcache \<Rightarrow> (error + ptr \<times> bcache) option" where
  "bget dev blockno s0 =
     (if bcache_lock s0 = 1 then Some (Inl VERIFIER_error)
      else
        let s1 = s0\<lparr>bcache_lock := 1\<rparr> in
        case bget_cached dev blockno s1 of
          None \<Rightarrow> None
        | Some (Inl e) \<Rightarrow> Some (Inl e)
        | Some (Inr b) \<Rightarrow>
            if b \<noteq> Head then Some (bget_hit b s1)
            else (case bget_recycle s1 of
                    None \<Rightarrow> None
                  | Some (Inl e) \<Rightarrow> Some (Inl e)
                  | Some (Inr b) \<Rightarrow>
                      if b \<noteq> Head then Some (bget_rebind dev blockno b s1)
                      else Some (Inr (Null, s1))))"
  for dev blockno

subsection \<open>iderw, bread, bwrite\<close>

text \<open>The dummy disk operation of line 193; the call is recorded.\<close>

definition iderw :: "ptr \<Rightarrow> bcache \<Rightarrow> error + bcache" where
  "iderw b s = upd b (\<lambda>y. y\<lparr>valid := 1\<rparr>) (s\<lparr>iderw_calls := b # iderw_calls s\<rparr>)"

text \<open>
  \<^verbatim>\<open>bread\<close> calls \<^verbatim>\<open>iderw\<close> on whatever \<^verbatim>\<open>bget\<close> returned: the test
  \<^verbatim>\<open>if(b->valid != 1)\<close> around the call is commented out in the source (lines 218 to 220).
\<close>

definition bread :: "uint \<Rightarrow> uint \<Rightarrow> bcache \<Rightarrow> (error + ptr \<times> bcache) option" where
  "bread dev blockno s0 =
     (case bget dev blockno s0 of
        None \<Rightarrow> None
      | Some (Inl e) \<Rightarrow> Some (Inl e)
      | Some (Inr (b, s1)) \<Rightarrow> Some (
          bindE (iderw b s1) (\<lambda>s2.
          bindE (rd s2 b) (\<lambda>x.
          if valid x \<noteq> 1 then Inl VERIFIER_error else Inr (b, s2)))))"
  for dev blockno

definition bwrite :: "ptr \<Rightarrow> bcache \<Rightarrow> error + bcache" where
  "bwrite b = seqE
     [\<lambda>s. upd b (\<lambda>y. y\<lparr>dirty := 1\<rparr>) s,
      \<lambda>s. bindE (rd s b) (\<lambda>x. error_if (dirty x \<noteq> 1) s),
      iderw b,
      \<lambda>s. bindE (rd s b) (\<lambda>x. error_if (valid x \<noteq> 1) s)]"

subsection \<open>main\<close>

text \<open>
  \<^verbatim>\<open>bcache\<close> is a global without initialiser: when \<^verbatim>\<open>main\<close> starts, every integer in it
  is 0 and every pointer is null.
\<close>

definition buf0 :: buf where
  "buf0 = \<lparr>valid = 0, dirty = 0, dev = 0, blockno = 0, lock = 0, refcnt = 0,
           prev = Null, next = Null\<rparr>"

definition bcache0 :: bcache where
  "bcache0 = \<lparr>bcache_lock = 0, bcache_buf = replicate NBUF buf0, bcache_head = buf0,
              iderw_calls = []\<rparr>"

text \<open>The check of lines 335 to 343 on the pointer that \<^verbatim>\<open>bget(10, 20)\<close> returned.\<close>

definition main_check :: "ptr \<Rightarrow> bcache \<Rightarrow> error + bcache" where
  "main_check b s =
     (if b \<noteq> Null
      then bindE (rd s b) (\<lambda>x.
             error_if (buf.dev x \<noteq> 10 \<or> buf.blockno x \<noteq> 20 \<or> refcnt x < 1) s)
      else Inr s)"

definition main :: "(error + bcache) option" where
  "main =
     (case binit bcache0 of
        Inl e \<Rightarrow> Some (Inl e)
      | Inr s1 \<Rightarrow>
         (case bget 10 20 (s1\<lparr>bcache_lock := 0\<rparr>) of
            None \<Rightarrow> None
          | Some (Inl e) \<Rightarrow> Some (Inl e)
          | Some (Inr (b, s2)) \<Rightarrow>
             (case main_check b s2 of
                Inl e \<Rightarrow> Some (Inl e)
              | Inr s3 \<Rightarrow>
                 (case bread 20 40 (s3\<lparr>bcache_lock := 0\<rparr>) of
                    None \<Rightarrow> None
                  | Some (Inl e) \<Rightarrow> Some (Inl e)
                  | Some (Inr (b', s4)) \<Rightarrow> Some (
                      bindE (bwrite (Buf 1) s4) (\<lambda>s5.
                      brelse (Buf 0) (s5\<lparr>bcache_lock := 0\<rparr>)))))))"

text \<open>The pool as \<^verbatim>\<open>binit\<close> leaves it when \<^verbatim>\<open>main\<close> calls it.\<close>

definition pool_init :: bcache where
  "pool_init = (case binit bcache0 of Inr s \<Rightarrow> s | Inl e \<Rightarrow> bcache0)"

subsection \<open>The recency list\<close>

text \<open>The field \<open>f\<close> of the \<^verbatim>\<open>struct buf\<close> that \<open>p\<close> points to, if \<open>p\<close> points to one.\<close>

definition fld :: "(buf \<Rightarrow> 'a) \<Rightarrow> bcache \<Rightarrow> ptr \<Rightarrow> 'a option" where
  "fld f s p = (case rd s p of Inl e \<Rightarrow> None | Inr x \<Rightarrow> Some (f x))"

text \<open>\<open>p\<close> points to a slot or to the sentinel.\<close>

definition is_buf :: "bcache \<Rightarrow> ptr \<Rightarrow> bool" where
  "is_buf s p = (case rd s p of Inl e \<Rightarrow> False | Inr x \<Rightarrow> True)"

text \<open>All the \<^verbatim>\<open>prev\<close> and \<^verbatim>\<open>next\<close> pointers of the cache: of the slots, then of the sentinel.\<close>

definition links :: "bcache \<Rightarrow> (ptr \<times> ptr) list \<times> (ptr \<times> ptr)" where
  "links s = (map (\<lambda>x. (prev x, next x)) (bcache_buf s),
              (prev (bcache_head s), next (bcache_head s)))"

text \<open>The addresses of the \<^verbatim>\<open>NBUF\<close> slots.\<close>

definition slots :: "ptr list" where
  "slots = map Buf [0..<NBUF]"

text \<open>\<open>y\<close> comes right after \<open>x\<close>: \<^verbatim>\<open>x->next == y\<close> and \<^verbatim>\<open>y->prev == x\<close>.\<close>

definition linked :: "bcache \<Rightarrow> ptr \<Rightarrow> ptr \<Rightarrow> bool" where
  "linked s x y = (fld next s x = Some y \<and> fld prev s y = Some x)"

text \<open>
  \<open>ps\<close> is the recency list, most recently used slot first: it holds every slot once,
  and the links lead from the sentinel through \<open>ps\<close> back to the sentinel, forwards
  along \<^verbatim>\<open>next\<close> and backwards along \<^verbatim>\<open>prev\<close>.
\<close>

definition mru_list :: "bcache \<Rightarrow> ptr list \<Rightarrow> bool" where
  "mru_list s ps =
     (length (bcache_buf s) = NBUF \<and> distinct ps \<and> set ps = set slots \<and>
      successively (linked s) (Head # ps @ [Head]))"

text \<open>
  The slots met when walking from \<open>b\<close> along one link field until the sentinel is
  reached; \<open>None\<close> if that takes more than \<open>n\<close> steps or leaves the cache.
\<close>

fun walk :: "(buf \<Rightarrow> ptr) \<Rightarrow> bcache \<Rightarrow> nat \<Rightarrow> ptr \<Rightarrow> ptr list option" where
  "walk link s 0 b = (if b = Head then Some [] else None)"
| "walk link s (Suc n) b =
     (if b = Head then Some []
      else (case rd s b of
              Inl e \<Rightarrow> None
            | Inr x \<Rightarrow> map_option ((#) b) (walk link s n (link x))))"

text \<open>
  The invariant of the ordering list: walking from \<^verbatim>\<open>bcache.head.next\<close> along
  \<^verbatim>\<open>next\<close> comes back to the sentinel after visiting every slot exactly once, walking
  from \<^verbatim>\<open>bcache.head.prev\<close> along \<^verbatim>\<open>prev\<close> visits the same slots in the opposite order,
  and neighbours point at each other.
\<close>

definition lru_ok :: "bcache \<Rightarrow> bool" where
  "lru_ok s =
     (case walk next s NBUF (next (bcache_head s)) of
        None \<Rightarrow> False
      | Some ps \<Rightarrow> mru_list s ps \<and> walk prev s NBUF (prev (bcache_head s)) = Some (rev ps))"

subsection \<open>Outcomes and sample states\<close>

text \<open>The call came back (it neither ran forever nor stopped in an error).\<close>

definition returns :: "(error + 'a) option \<Rightarrow> bool" where
  "returns r = (case r of Some (Inr x) \<Rightarrow> True | _ \<Rightarrow> False)"

text \<open>The state a call leaves behind; the state itself if the call did not come back.\<close>

definition after :: "bcache \<Rightarrow> (error + bcache) \<Rightarrow> bcache" where
  "after s r = (case r of Inr s' \<Rightarrow> s' | Inl e \<Rightarrow> s)"

definition after_ptr :: "bcache \<Rightarrow> (error + ptr \<times> bcache) option \<Rightarrow> bcache" where
  "after_ptr s r = (case r of Some (Inr (b, s')) \<Rightarrow> s' | _ \<Rightarrow> s)"

text \<open>\<^verbatim>\<open>binit(); bwrite(&bcache.buf[1]);\<close> leaves slot 1 dirty, so that it can be recycled.\<close>

definition pool_dirty1 :: bcache where
  "pool_dirty1 = after pool_init (bwrite (Buf 1) pool_init)"

text \<open>The pointer a call returned; null if the call did not come back.\<close>

definition result_ptr :: "(error + ptr \<times> bcache) option \<Rightarrow> ptr" where
  "result_ptr r = (case r of Some (Inr (b, s')) \<Rightarrow> b | _ \<Rightarrow> Null)"

text \<open>Then \<^verbatim>\<open>bget(20, 40)\<close>: slot 1 is rebound and held once.\<close>

definition pool_held1 :: bcache where
  "pool_held1 = after_ptr pool_dirty1 (bget 20 40 pool_dirty1)"

text \<open>\<^verbatim>\<open>binit(); brelse(&bcache.buf[2]);\<close> on a slot that nobody holds.\<close>

definition pool_wrapped :: bcache where
  "pool_wrapped = after pool_init (brelse (Buf 2) pool_init)"

text \<open>\<^verbatim>\<open>binit(); bread(0, 0);\<close> finds slot 2 and reads it.\<close>

definition pool_read :: bcache where
  "pool_read = after_ptr pool_init (bread 0 0 pool_init)"

text \<open>
  All three slots held: after \<^verbatim>\<open>binit\<close>, each slot is written (which makes it dirty)
  and then three different blocks are acquired.
\<close>

definition pool_saturated :: bcache where
  "pool_saturated =
     (let s1 = after pool_init (bwrite (Buf 0) pool_init);
          s2 = after s1 (bwrite (Buf 1) s1);
          s3 = after s2 (bwrite (Buf 2) s2);
          s4 = after_ptr s3 (bget 1 1 s3);
          s5 = after_ptr s4 (bget 2 2 s4)
      in after_ptr s5 (bget 3 3 s5))"



subsection \<open>Basic facts about reading and writing\<close>

lemma bindE_simps [simp]:
  "bindE (Inl e) f = Inl e"
  "bindE (Inr x) f = f x"
  by (simp_all add: bindE_def)

lemma bindE_eq_Inr:
  "bindE m f = Inr y \<longleftrightarrow> (\<exists>x. m = Inr x \<and> f x = Inr y)"
  by (cases m) simp_all

lemma error_if_simps [simp]:
  "error_if True s = Inl VERIFIER_error"
  "error_if False s = Inr s"
  by (simp_all add: error_if_def)

lemma rd_lock_update [simp]: "rd (s\<lparr>bcache_lock := v\<rparr>) p = rd s p"
  by (cases p) simp_all

lemma rd_calls_update [simp]: "rd (s\<lparr>iderw_calls := v\<rparr>) p = rd s p"
  by (cases p) simp_all

lemma rd_upd_same: "upd p f s = Inr s' \<Longrightarrow> rd s p = Inr x \<Longrightarrow> rd s' p = Inr (f x)"
  by (cases p) (auto split: if_splits)

lemma rd_upd_other: "upd p f s = Inr s' \<Longrightarrow> q \<noteq> p \<Longrightarrow> rd s' q = rd s q"
  by (cases p; cases q) (auto split: if_splits)

lemma upd_ok: "rd s p = Inr x \<Longrightarrow> \<exists>s'. upd p f s = Inr s'"
  by (cases p) (auto split: if_splits)

lemma upd_eq_Inr:
  "upd p f s = Inr s' \<Longrightarrow> \<exists>x. rd s p = Inr x \<and> rd s' p = Inr (f x)"
  by (cases p) (auto split: if_splits)

lemma upd_lock [simp]:
  "upd p f s = Inr s' \<Longrightarrow> bcache_lock s' = bcache_lock s"
  by (cases p) (auto split: if_splits)

lemma error_if_Inr: "error_if c s = Inr s' \<Longrightarrow> s' = s"
  by (auto simp: error_if_def split: if_splits)

lemma returnsD: "returns r \<Longrightarrow> \<exists>x. r = Some (Inr x)"
  by (auto simp: returns_def split: option.splits sum.splits)

lemma seqE_preserves:
  "seqE cs s = Inr s' \<Longrightarrow> (\<forall>c\<in>set cs. \<forall>s s'. c s = Inr s' \<longrightarrow> f s' = f s) \<Longrightarrow> f s' = f s"
proof (induction cs arbitrary: s)
  case Nil
  then show ?case by simp
next
  case (Cons c cs)
  from Cons.prems(1) obtain s1 where c: "c s = Inr s1" and r: "seqE cs s1 = Inr s'"
    by (auto split: sum.splits)
  have "f s1 = f s" using Cons.prems(2) c by simp
  moreover have "f s' = f s1" using Cons.IH [OF r] Cons.prems(2) by simp
  ultimately show ?case by simp
qed

subsection \<open>Which functions write link fields\<close>

lemma links_lock_update [simp]: "links (s\<lparr>bcache_lock := v\<rparr>) = links s"
  by (simp add: links_def)

lemma links_calls_update [simp]: "links (s\<lparr>iderw_calls := v\<rparr>) = links s"
  by (simp add: links_def)

lemma upd_links:
  assumes "upd p g s = Inr s'" and "\<And>y. prev (g y) = prev y" and "\<And>y. next (g y) = next y"
  shows "links s' = links s"
proof (cases p)
  case (Buf i)
  with assms(1) have i: "i < length (bcache_buf s)"
    and s': "s' = s\<lparr>bcache_buf := (bcache_buf s)[i := g (bcache_buf s ! i)]\<rparr>"
    by (auto split: if_splits)
  have "map (\<lambda>x. (prev x, next x)) ((bcache_buf s)[i := g (bcache_buf s ! i)])
        = map (\<lambda>x. (prev x, next x)) (bcache_buf s)"
    using i assms(2,3) by (simp add: map_update list_update_same_conv)
  then show ?thesis by (simp add: s' links_def)
qed (use assms in \<open>auto simp: links_def\<close>)

lemma bget_hit_links: "bget_hit b s = Inr (b', s') \<Longrightarrow> links s' = links s"
  apply (clarsimp simp del: seqE.simps simp: bget_hit_def bindE_eq_Inr)
  apply (erule seqE_preserves [where f = links])
  apply (auto intro: upd_links dest!: error_if_Inr)
  done

lemma bget_rebind_links: "bget_rebind d bn b s = Inr (b', s') \<Longrightarrow> links s' = links s"
  apply (clarsimp simp del: seqE.simps simp: bget_rebind_def bindE_eq_Inr)
  apply (erule seqE_preserves [where f = links])
  apply (auto intro: upd_links dest!: error_if_Inr)
  done

lemma bget_links: "bget d bn s = Some (Inr (b, s')) \<Longrightarrow> links s' = links s"
  by (auto simp: bget_def Let_def split: if_splits option.splits sum.splits
      dest: bget_hit_links bget_rebind_links)

lemma iderw_links:
  assumes "iderw b s = Inr s'"
  shows "links s' = links s"
proof -
  from assms have "links s' = links (s\<lparr>iderw_calls := b # iderw_calls s\<rparr>)"
    unfolding iderw_def by (rule upd_links) simp_all
  then show ?thesis by simp
qed

lemma bread_links: "bread d bn s = Some (Inr (b, s')) \<Longrightarrow> links s' = links s"
  by (auto simp: bread_def bindE_eq_Inr split: if_splits option.splits sum.splits
      dest!: bget_links iderw_links)

lemma bwrite_links: "bwrite b s = Inr s' \<Longrightarrow> links s' = links s"
  apply (clarsimp simp del: seqE.simps simp: bwrite_def)
  apply (erule seqE_preserves [where f = links])
  apply (auto simp: bindE_eq_Inr intro: upd_links iderw_links dest!: error_if_Inr)
  done

subsection \<open>Fields and links\<close>

lemma fld_upd:
  "upd p g s = Inr s' \<Longrightarrow> fld f s' q = (if q = p then fld (\<lambda>y. f (g y)) s p else fld f s q)"
  by (cases p; cases q) (auto simp: fld_def split: if_splits)

lemma fld_lock_update [simp]: "fld f (s\<lparr>bcache_lock := v\<rparr>) = fld f s"
  by (rule ext) (simp add: fld_def)

lemma fld_calls_update [simp]: "fld f (s\<lparr>iderw_calls := v\<rparr>) = fld f s"
  by (rule ext) (simp add: fld_def)

lemma fld_Some_iff: "fld f s p = Some v \<longleftrightarrow> (\<exists>x. rd s p = Inr x \<and> f x = v)"
  by (auto simp: fld_def split: sum.splits)

lemma fld_Head [simp]: "fld f s Head = Some (f (bcache_head s))"
  by (simp add: fld_def)

lemma links_eqD:
  assumes "links s' = links s"
  shows "length (bcache_buf s') = length (bcache_buf s)"
    and "fld next s' = fld next s" and "fld prev s' = fld prev s"
proof -
  let ?f = "\<lambda>x. (prev x, next x)"
  from assms have m: "map ?f (bcache_buf s') = map ?f (bcache_buf s)"
    and h: "prev (bcache_head s') = prev (bcache_head s)" "next (bcache_head s') = next (bcache_head s)"
    by (simp_all add: links_def)
  from m show len: "length (bcache_buf s') = length (bcache_buf s)"
    by (rule map_eq_imp_length_eq)
  have nth: "?f (bcache_buf s' ! i) = ?f (bcache_buf s ! i)" if "i < length (bcache_buf s)" for i
    using that len nth_map [of i "bcache_buf s'" ?f] nth_map [of i "bcache_buf s" ?f] m by simp
  show "fld next s' = fld next s"
  proof
    fix p show "fld next s' p = fld next s p"
      using h len nth by (cases p) (auto simp: fld_def)
  qed
  show "fld prev s' = fld prev s"
  proof
    fix p show "fld prev s' p = fld prev s p"
      using h len nth by (cases p) (auto simp: fld_def)
  qed
qed

lemma mru_list_links: "links s' = links s \<Longrightarrow> mru_list s' ps = mru_list s ps"
  using links_eqD [of s' s] by (simp add: mru_list_def linked_def [abs_def])

subsection \<open>Walking a list\<close>

lemma length_slots [simp]: "length slots = NBUF"
  by (simp add: slots_def)

lemma distinct_slots: "distinct slots"
  by (simp add: slots_def distinct_map inj_on_def)

lemma Head_notin_slots [simp]: "Head \<notin> set slots" and Null_notin_slots [simp]: "Null \<notin> set slots"
  by (auto simp: slots_def)

lemma mru_list_length: "mru_list s ps \<Longrightarrow> length ps = NBUF"
proof -
  assume m: "mru_list s ps"
  then have "length ps = card (set ps)" by (simp add: mru_list_def distinct_card [symmetric])
  also have "\<dots> = card (set slots)" using m by (simp add: mru_list_def)
  also have "\<dots> = NBUF" using distinct_card [OF distinct_slots] by simp
  finally show ?thesis .
qed

lemma walk_chain:
  "successively (\<lambda>x y. fld link s x = Some y) (ps @ [Head]) \<Longrightarrow> Head \<notin> set ps \<Longrightarrow>
   length ps \<le> n \<Longrightarrow> walk link s n (hd (ps @ [Head])) = Some ps"
proof (induction ps arbitrary: n)
  case Nil
  then show ?case by (cases n) simp_all
next
  case (Cons p ps)
  then obtain k where n: "n = Suc k" and k: "length ps \<le> k" by (cases n) auto
  from Cons.prems(1) have l: "fld link s p = Some (hd (ps @ [Head]))"
    and r: "successively (\<lambda>x y. fld link s x = Some y) (ps @ [Head])"
    by (cases ps; simp)+
  from Cons.prems(2) have h: "p \<noteq> Head" "Head \<notin> set ps" by auto
  from l obtain x where x: "rd s p = Inr x" "link x = hd (ps @ [Head])"
    by (auto simp: fld_Some_iff)
  show ?case using Cons.IH [OF r h(2) k] h(1) x by (simp add: n)
qed

lemma mru_list_next:
  "mru_list s ps \<Longrightarrow> successively (\<lambda>x y. fld next s x = Some y) (Head # ps @ [Head])"
  unfolding mru_list_def by (elim conjE, erule successively_mono) (simp add: linked_def)

lemma mru_list_prev:
  "mru_list s ps \<Longrightarrow> successively (\<lambda>x y. fld prev s x = Some y) (Head # rev ps @ [Head])"
proof -
  assume "mru_list s ps"
  then have "successively (linked s) (Head # ps @ [Head])" by (simp add: mru_list_def)
  then have "successively (\<lambda>x y. linked s y x) (rev (Head # ps @ [Head]))"
    by (simp only: successively_rev)
  then have "successively (\<lambda>x y. linked s y x) (Head # rev ps @ [Head])" by simp
  then show ?thesis by (rule successively_mono) (simp add: linked_def)
qed

lemma mru_list_lru_ok: "mru_list s ps \<Longrightarrow> lru_ok s"
proof -
  assume m: "mru_list s ps"
  have h: "Head \<notin> set ps" "Head \<notin> set (rev ps)" using m by (simp_all add: mru_list_def)
  have len: "length ps \<le> NBUF" "length (rev ps) \<le> NBUF" using mru_list_length [OF m] by simp_all
  from mru_list_next [OF m] have n: "fld next s Head = Some (hd (ps @ [Head]))"
    and nc: "successively (\<lambda>x y. fld next s x = Some y) (ps @ [Head])"
    by (simp_all add: successively_Cons)
  from mru_list_prev [OF m] have p: "fld prev s Head = Some (hd (rev ps @ [Head]))"
    and pc: "successively (\<lambda>x y. fld prev s x = Some y) (rev ps @ [Head])"
    by (simp_all add: successively_Cons)
  have "walk next s NBUF (next (bcache_head s)) = Some ps"
    using walk_chain [OF nc h(1) len(1)] n by simp
  moreover have "walk prev s NBUF (prev (bcache_head s)) = Some (rev ps)"
    using walk_chain [OF pc h(2) len(2)] p by simp
  ultimately show ?thesis using m by (simp add: lru_ok_def)
qed

lemma lru_ok_iff: "lru_ok s \<longleftrightarrow> (\<exists>ps. mru_list s ps)"
proof
  assume "lru_ok s"
  then show "\<exists>ps. mru_list s ps" by (auto simp: lru_ok_def split: option.splits)
next
  assume "\<exists>ps. mru_list s ps"
  then show "lru_ok s" using mru_list_lru_ok by blast
qed

lemma lru_ok_links:
  assumes "links s' = links s"
  shows "lru_ok s' = lru_ok s"
  unfolding lru_ok_iff mru_list_links [OF assms] ..

subsection \<open>The loops of bget\<close>

lemma scan_chain:
  "successively (\<lambda>x y. fld link s x = Some y) (ps @ [Head]) \<Longrightarrow> Head \<notin> set ps \<Longrightarrow>
   scan link test s (hd (ps @ [Head])) =
     Some (Inr (case find (\<lambda>q. fld test s q = Some True) ps of None \<Rightarrow> Head | Some q \<Rightarrow> q))"
proof (induction ps)
  case Nil
  show ?case by (subst scan.simps) simp
next
  case (Cons p ps)
  from Cons.prems(1) have l: "fld link s p = Some (hd (ps @ [Head]))"
    and r: "successively (\<lambda>x y. fld link s x = Some y) (ps @ [Head])"
    by (cases ps; simp)+
  from Cons.prems(2) have h: "p \<noteq> Head" "Head \<notin> set ps" by auto
  from l obtain x where x: "rd s p = Inr x" "link x = hd (ps @ [Head])"
    by (auto simp: fld_Some_iff)
  have t: "fld test s p = Some (test x)" using x by (simp add: fld_def)
  show ?case
    using Cons.IH [OF r h(2)] h(1) x t by (subst scan.simps) simp
qed

lemma scan_found_aux:
  "scan link test s b0 = Some r \<Longrightarrow>
   \<forall>b. r = Inr b \<longrightarrow> b \<noteq> Head \<longrightarrow> (\<exists>x. rd s b = Inr x \<and> test x)"
proof (induction rule: scan.raw_induct [rotated 1, consumes 1])
  case (1 scan link test s b r)
  then show ?case by (auto split: if_splits sum.splits)
qed

lemma scan_found:
  "scan link test s b0 = Some (Inr b) \<Longrightarrow> b \<noteq> Head \<Longrightarrow> \<exists>x. rd s b = Inr x \<and> test x"
  using scan_found_aux by blast

subsection \<open>Pointers that can be dereferenced\<close>

lemma is_buf_iff: "is_buf s p \<longleftrightarrow> (\<exists>x. rd s p = Inr x)"
  by (auto simp: is_buf_def split: sum.splits)

lemma is_buf_fld: "is_buf s p \<longleftrightarrow> (\<exists>v. fld f s p = Some v)"
  by (auto simp: is_buf_def fld_def split: sum.splits)

lemma upd_is_buf: "is_buf s p \<Longrightarrow> \<exists>s'. upd p g s = Inr s'"
  by (cases p) (auto simp: is_buf_def split: if_splits)

lemma is_buf_upd: "upd p g s = Inr s' \<Longrightarrow> is_buf s' q = is_buf s q"
  by (cases p; cases q) (auto simp: is_buf_def split: if_splits)

lemma upd_Inr_is_buf: "upd p g s = Inr s' \<Longrightarrow> is_buf s p"
  by (cases p) (auto simp: is_buf_def split: if_splits)

lemma fld_upd_const:
  assumes "upd p g s = Inr s'" and "\<And>y. f (g y) = v"
  shows "fld f s' = (fld f s)(p \<mapsto> v)"
proof
  fix q
  from upd_Inr_is_buf [OF assms(1)] obtain x where "rd s p = Inr x" by (auto simp: is_buf_iff)
  then have "fld (\<lambda>y. f (g y)) s p = Some v" using assms(2) by (simp add: fld_def)
  then show "fld f s' q = ((fld f s)(p \<mapsto> v)) q" using fld_upd [OF assms(1), of f q] by simp
qed

lemma fld_upd_keep:
  assumes "upd p g s = Inr s'" and "\<And>y. f (g y) = f y"
  shows "fld f s' = fld f s"
proof
  fix q show "fld f s' q = fld f s q" using fld_upd [OF assms(1), of f q] assms(2) by simp
qed

lemma mru_list_is_buf: "mru_list s ps \<Longrightarrow> p \<in> set (Head # ps) \<Longrightarrow> is_buf s p"
  by (auto simp: mru_list_def slots_def is_buf_def)

lemma is_buf_mru_list: "mru_list s ps \<Longrightarrow> is_buf s p \<Longrightarrow> p \<in> set (Head # ps)"
  by (cases p) (auto simp: mru_list_def slots_def is_buf_def split: if_splits)

subsection \<open>bget on a well-formed list\<close>

lemma bget_hit_eq:
  "bcache_lock s \<noteq> 0 \<Longrightarrow>
   bget_hit b s = bindE (upd b (\<lambda>y. y\<lparr>refcnt := refcnt y + 1, lock := 1\<rparr>) (s\<lparr>bcache_lock := 0\<rparr>))
                    (\<lambda>s'. Inr (b, s'))"
  by (cases b) (simp_all add: bget_hit_def)

lemma bget_rebind_eq:
  "bcache_lock s \<noteq> 0 \<Longrightarrow>
   bget_rebind d bn b s =
     bindE (upd b (\<lambda>y. y\<lparr>dev := d, blockno := bn, dirty := 0, valid := 0, refcnt := 1, lock := 1\<rparr>)
              (s\<lparr>bcache_lock := 0\<rparr>))
       (\<lambda>s'. Inr (b, s'))"
  by (cases b) (simp_all add: bget_rebind_def)

lemma find_in_list: "find P xs = Some x \<Longrightarrow> x \<in> set xs \<and> P x"
  by (auto simp: find_Some_iff)

lemma bget_mru_list:
  assumes m: "mru_list s ps" and l: "bcache_lock s \<noteq> 1"
  shows "bget d bn s = Some
     (case find (\<lambda>q. fld (is_cached d bn) s q = Some True) ps of
        Some b \<Rightarrow> bget_hit b (s\<lparr>bcache_lock := 1\<rparr>)
      | None \<Rightarrow>
         (case find (\<lambda>q. fld is_recyclable s q = Some True) (rev ps) of
            Some b \<Rightarrow> bget_rebind d bn b (s\<lparr>bcache_lock := 1\<rparr>)
          | None \<Rightarrow> Inr (Null, s\<lparr>bcache_lock := 1\<rparr>)))"
proof -
  let ?s = "s\<lparr>bcache_lock := 1\<rparr>"
  have h: "Head \<notin> set ps" "Head \<notin> set (rev ps)" using m by (simp_all add: mru_list_def)
  from mru_list_next [OF m] have n: "next (bcache_head s) = hd (ps @ [Head])"
    and nc: "successively (\<lambda>x y. fld next ?s x = Some y) (ps @ [Head])"
    by (simp_all add: successively_Cons)
  from mru_list_prev [OF m] have p: "prev (bcache_head s) = hd (rev ps @ [Head])"
    and pc: "successively (\<lambda>x y. fld prev ?s x = Some y) (rev ps @ [Head])"
    by (simp_all add: successively_Cons)
  have c: "bget_cached d bn ?s = Some (Inr (case find (\<lambda>q. fld (is_cached d bn) s q = Some True) ps of
              None \<Rightarrow> Head | Some q \<Rightarrow> q))"
    using scan_chain [OF nc h(1), of "is_cached d bn"] n by (simp add: bget_cached_def)
  have r: "bget_recycle ?s = Some (Inr (case find (\<lambda>q. fld is_recyclable s q = Some True) (rev ps) of
              None \<Rightarrow> Head | Some q \<Rightarrow> q))"
    using scan_chain [OF pc h(2), of is_recyclable] p by (simp add: bget_recycle_def)
  show ?thesis
  proof (cases "find (\<lambda>q. fld (is_cached d bn) s q = Some True) ps")
    case (Some b)
    then have "b \<noteq> Head" using h(1) by (auto dest: find_in_list)
    then show ?thesis using l c Some by (simp add: bget_def)
  next
    case None
    show ?thesis
    proof (cases "find (\<lambda>q. fld is_recyclable s q = Some True) (rev ps)")
      case (Some b)
      then have "b \<noteq> Head" using h(1) by (auto dest: find_in_list)
      then show ?thesis using l c r None Some by (simp add: bget_def)
    next
      case N2: None
      then show ?thesis using l c r None by (simp add: bget_def)
    qed
  qed
qed

subsection \<open>Moving a slot to the front\<close>

lemma successively_frame:
  "successively (\<lambda>x y. N x = Some y \<and> P y = Some x) l \<Longrightarrow>
   (\<forall>x\<in>set (butlast l). N' x = N x) \<Longrightarrow> (\<forall>y\<in>set (tl l). P' y = P y) \<Longrightarrow>
   successively (\<lambda>x y. N' x = Some y \<and> P' y = Some x) l"
proof (induction l rule: induct_list012)
  case (3 x y zs)
  then show ?case by simp
qed simp_all

lemma last_notin_butlast: "distinct l \<Longrightarrow> l \<noteq> [] \<Longrightarrow> last l \<notin> set (butlast l)"
  by (cases l rule: rev_cases) auto

lemma hd_notin_tl: "distinct l \<Longrightarrow> l \<noteq> [] \<Longrightarrow> hd l \<notin> set (tl l)"
  by (cases l) auto

lemma move_to_front:
  fixes N P :: "'a \<Rightarrow> 'a option"
  assumes c: "successively (\<lambda>x y. N x = Some y \<and> P y = Some x) (h # xs @ b # ys @ [h])"
    and d: "distinct (h # xs @ b # ys)" and ne: "xs \<noteq> []"
    and N': "N' = N(last xs \<mapsto> hd (ys @ [h]), b \<mapsto> hd xs, h \<mapsto> b)"
    and P': "P' = P(hd (ys @ [h]) \<mapsto> last xs, b \<mapsto> h, hd xs \<mapsto> b)"
  shows "successively (\<lambda>x y. N' x = Some y \<and> P' y = Some x) (h # b # xs @ ys @ [h])"
proof -
  let ?L = "\<lambda>x y. N x = Some y \<and> P y = Some x"
  let ?L' = "\<lambda>x y. N' x = Some y \<and> P' y = Some x"
  let ?n = "hd (ys @ [h])" and ?p = "last xs" and ?m = "hd xs"
  have mem: "?p \<in> set xs" "?m \<in> set xs" using ne by simp_all
  have n_cases: "?n = h \<or> ?n \<in> set ys" by (cases ys) auto
  have dz: "distinct (ys @ [h])" using d by auto
  from c have "successively ?L ((h # xs) @ (b # ys @ [h]))" by simp
  then have cx: "successively ?L (h # xs)" and cy: "successively ?L (b # ys @ [h])"
    unfolding successively_append_iff by simp_all
  from cx have cxs: "successively ?L xs" by (auto simp: successively_Cons)
  from cy have cys: "successively ?L (ys @ [h])" by (auto simp: successively_Cons)
  have 1: "?L' h b" using d mem by (auto simp: N' P')
  have 2: "?L' b ?m" using d mem by (auto simp: N' P')
  have 3: "?L' ?p ?n" using d mem n_cases by (auto simp: N' P')
  have 4: "successively ?L' xs"
  proof (rule successively_frame [OF cxs])
    show "\<forall>x\<in>set (butlast xs). N' x = N x"
      using d ne last_notin_butlast [of xs] by (auto simp: N' dest: in_set_butlastD)
    show "\<forall>y\<in>set (tl xs). P' y = P y"
      using d ne n_cases hd_notin_tl [of xs] by (auto simp: P' dest: list.set_sel(2))
  qed
  have 5: "successively ?L' (ys @ [h])"
  proof (rule successively_frame [OF cys])
    show "\<forall>x\<in>set (butlast (ys @ [h])). N' x = N x"
      using d mem by (auto simp: N' butlast_append)
    have "\<And>y. y \<in> set (tl (ys @ [h])) \<Longrightarrow> y \<noteq> ?n \<and> y \<noteq> b \<and> y \<noteq> ?m"
    proof -
      fix y assume y: "y \<in> set (tl (ys @ [h]))"
      then have "y \<in> set (ys @ [h])" by (rule list.set_sel(2) [rotated]) simp
      then have "y \<noteq> b" "y \<noteq> ?m" using d mem by auto
      moreover have "y \<noteq> ?n" using hd_notin_tl [OF dz] y by auto
      ultimately show "y \<noteq> ?n \<and> y \<noteq> b \<and> y \<noteq> ?m" by simp
    qed
    then show "\<forall>y\<in>set (tl (ys @ [h])). P' y = P y" by (auto simp: P')
  qed
  have 6: "successively ?L' (xs @ (ys @ [h]))"
    by (rule iffD2 [OF successively_append_iff]) (use 3 4 5 ne in simp)
  have "successively ?L' (h # b # (xs @ ys @ [h]))"
    using 1 2 6 ne by (simp add: successively_Cons)
  then show ?thesis by simp
qed

subsection \<open>The six assignments of brelse\<close>

lemma upd_length: "upd p g s = Inr s' \<Longrightarrow> length (bcache_buf s') = length (bcache_buf s)"
  by (cases p) (auto split: if_splits)

lemma upd_calls: "upd p g s = Inr s' \<Longrightarrow> iderw_calls s' = iderw_calls s"
  by (cases p) (auto split: if_splits)

lemma brelse_move_steps:
  assumes "brelse_move b s = Inr s'"
  obtains x0 s1 x1 s2 s3 s4 s5 where
    "rd s b = Inr x0" "upd (next x0) (\<lambda>y. y\<lparr>prev := prev x0\<rparr>) s = Inr s1"
    "rd s1 b = Inr x1" "upd (prev x1) (\<lambda>y. y\<lparr>next := next x1\<rparr>) s1 = Inr s2"
    "upd b (\<lambda>y. y\<lparr>next := next (bcache_head s2)\<rparr>) s2 = Inr s3"
    "upd b (\<lambda>y. y\<lparr>prev := Head\<rparr>) s3 = Inr s4"
    "upd (next (bcache_head s4)) (\<lambda>y. y\<lparr>prev := b\<rparr>) s4 = Inr s5"
    "upd Head (\<lambda>y. y\<lparr>next := b\<rparr>) s5 = Inr s'"
  using assms by (auto simp: brelse_move_def bindE_eq_Inr split: sum.splits)

lemma brelse_move_keeps:
  assumes "brelse_move b s = Inr s'"
  shows "length (bcache_buf s') = length (bcache_buf s)"
    and "bcache_lock s' = bcache_lock s"
    and "iderw_calls s' = iderw_calls s"
    and "(\<And>y v. f (y\<lparr>prev := v\<rparr>) = f y) \<Longrightarrow> (\<And>y v. f (y\<lparr>next := v\<rparr>) = f y) \<Longrightarrow>
         fld f s' = fld f s"
proof -
  from assms obtain x0 s1 x1 s2 s3 s4 s5 where "rd s b = Inr x0" "rd s1 b = Inr x1" and st:
    "upd (next x0) (\<lambda>y. y\<lparr>prev := prev x0\<rparr>) s = Inr s1"
    "upd (prev x1) (\<lambda>y. y\<lparr>next := next x1\<rparr>) s1 = Inr s2"
    "upd b (\<lambda>y. y\<lparr>next := next (bcache_head s2)\<rparr>) s2 = Inr s3"
    "upd b (\<lambda>y. y\<lparr>prev := Head\<rparr>) s3 = Inr s4"
    "upd (next (bcache_head s4)) (\<lambda>y. y\<lparr>prev := b\<rparr>) s4 = Inr s5"
    "upd Head (\<lambda>y. y\<lparr>next := b\<rparr>) s5 = Inr s'"
    by (rule brelse_move_steps)
  show "length (bcache_buf s') = length (bcache_buf s)"
    using st [THEN upd_length] by simp
  show "bcache_lock s' = bcache_lock s"
    using st [THEN upd_lock] by simp
  show "iderw_calls s' = iderw_calls s"
    using st [THEN upd_calls] by simp
  assume f: "\<And>y v. f (y\<lparr>prev := v\<rparr>) = f y" "\<And>y v. f (y\<lparr>next := v\<rparr>) = f y"
  have "fld f s1 = fld f s" by (rule fld_upd_keep [OF st(1)]) (rule f)
  moreover have "fld f s2 = fld f s1" by (rule fld_upd_keep [OF st(2)]) (rule f)
  moreover have "fld f s3 = fld f s2" by (rule fld_upd_keep [OF st(3)]) (rule f)
  moreover have "fld f s4 = fld f s3" by (rule fld_upd_keep [OF st(4)]) (rule f)
  moreover have "fld f s5 = fld f s4" by (rule fld_upd_keep [OF st(5)]) (rule f)
  moreover have "fld f s' = fld f s5" by (rule fld_upd_keep [OF st(6)]) (rule f)
  ultimately show "fld f s' = fld f s" by simp
qed

lemma brelse_move_links:
  assumes "brelse_move b s = Inr s'"
  obtains n p p' m m' where
    "fld next s b = Some n" "fld prev s b = Some p"
    "((fld prev s)(n \<mapsto> p)) b = Some p'"
    "((fld next s)(p' \<mapsto> n)) Head = Some m"
    "((fld next s)(p' \<mapsto> n, b \<mapsto> m)) Head = Some m'"
    "fld next s' = (fld next s)(p' \<mapsto> n, b \<mapsto> m, Head \<mapsto> b)"
    "fld prev s' = (fld prev s)(n \<mapsto> p, b \<mapsto> Head, m' \<mapsto> b)"
proof -
  from assms obtain x0 s1 x1 s2 s3 s4 s5 where r0: "rd s b = Inr x0"
    and u1: "upd (next x0) (\<lambda>y. y\<lparr>prev := prev x0\<rparr>) s = Inr s1"
    and r1: "rd s1 b = Inr x1"
    and u2: "upd (prev x1) (\<lambda>y. y\<lparr>next := next x1\<rparr>) s1 = Inr s2"
    and u3: "upd b (\<lambda>y. y\<lparr>next := next (bcache_head s2)\<rparr>) s2 = Inr s3"
    and u4: "upd b (\<lambda>y. y\<lparr>prev := Head\<rparr>) s3 = Inr s4"
    and u5: "upd (next (bcache_head s4)) (\<lambda>y. y\<lparr>prev := b\<rparr>) s4 = Inr s5"
    and u6: "upd Head (\<lambda>y. y\<lparr>next := b\<rparr>) s5 = Inr s'"
    by (rule brelse_move_steps)
  let ?n = "next x0" and ?p = "prev x0" and ?p' = "prev x1"
  let ?m = "next (bcache_head s2)" and ?m' = "next (bcache_head s4)"
  have b0: "fld next s b = Some ?n" "fld prev s b = Some ?p" using r0 by (simp_all add: fld_def)
  have N1: "fld next s1 = fld next s" by (rule fld_upd_keep [OF u1]) simp
  have P1: "fld prev s1 = (fld prev s)(?n \<mapsto> ?p)" by (rule fld_upd_const [OF u1]) simp
  have b1: "fld next s1 b = Some (next x1)" "fld prev s1 b = Some ?p'"
    using r1 by (simp_all add: fld_def)
  have nx1: "next x1 = ?n" using b1(1) b0(1) N1 by simp
  have N2: "fld next s2 = (fld next s)(?p' \<mapsto> ?n)"
    using fld_upd_const [OF u2, of "next" "next x1"] N1 nx1 by simp
  have P2: "fld prev s2 = fld prev s1" by (rule fld_upd_keep [OF u2]) simp
  have h2: "fld next s2 Head = Some ?m" by simp
  have N3: "fld next s3 = (fld next s2)(b \<mapsto> ?m)" by (rule fld_upd_const [OF u3]) simp
  have P3: "fld prev s3 = fld prev s2" by (rule fld_upd_keep [OF u3]) simp
  have N4: "fld next s4 = fld next s3" by (rule fld_upd_keep [OF u4]) simp
  have P4: "fld prev s4 = (fld prev s3)(b \<mapsto> Head)" by (rule fld_upd_const [OF u4]) simp
  have h4: "fld next s4 Head = Some ?m'" by simp
  have N5: "fld next s5 = fld next s4" by (rule fld_upd_keep [OF u5]) simp
  have P5: "fld prev s5 = (fld prev s4)(?m' \<mapsto> b)" by (rule fld_upd_const [OF u5]) simp
  have N6: "fld next s' = (fld next s5)(Head \<mapsto> b)" by (rule fld_upd_const [OF u6]) simp
  have P6: "fld prev s' = fld prev s5" by (rule fld_upd_keep [OF u6]) simp
  show ?thesis
  proof (rule that [of ?n ?p ?p' ?m ?m'])
    show "fld next s b = Some ?n" "fld prev s b = Some ?p" by (rule b0)+
    show "((fld prev s)(?n \<mapsto> ?p)) b = Some ?p'" using b1(2) P1 by simp
    show "((fld next s)(?p' \<mapsto> ?n)) Head = Some ?m" using h2 N2 by simp
    show "((fld next s)(?p' \<mapsto> ?n, b \<mapsto> ?m)) Head = Some ?m'" using h4 N4 N3 N2 by simp
    show "fld next s' = (fld next s)(?p' \<mapsto> ?n, b \<mapsto> ?m, Head \<mapsto> b)"
      using N6 N5 N4 N3 N2 by simp
    show "fld prev s' = (fld prev s)(?n \<mapsto> ?p, b \<mapsto> Head, ?m' \<mapsto> b)"
      using P6 P5 P4 P3 P2 P1 by simp
  qed
qed

lemma brelse_move_ok:
  assumes n: "fld next s b = Some n" and p: "fld prev s b = Some p" and bn: "is_buf s n"
    and p': "((fld prev s)(n \<mapsto> p)) b = Some p'" and bp: "is_buf s p'"
    and m: "((fld next s)(p' \<mapsto> n)) Head = Some m"
    and m': "((fld next s)(p' \<mapsto> n, b \<mapsto> m)) Head = Some m'" and bm: "is_buf s m'"
  shows "\<exists>s'. brelse_move b s = Inr s'"
proof -
  from n p obtain x0 where r0: "rd s b = Inr x0" and x0: "next x0 = n" "prev x0 = p"
    by (auto simp: fld_Some_iff)
  have bb: "is_buf s b" using r0 by (simp add: is_buf_iff)
  from upd_is_buf [OF bn] obtain s1 where
    u1: "upd (next x0) (\<lambda>y. y\<lparr>prev := prev x0\<rparr>) s = Inr s1" unfolding x0 by blast
  have N1: "fld next s1 = fld next s" by (rule fld_upd_keep [OF u1]) simp
  have P1: "fld prev s1 = (fld prev s)(n \<mapsto> p)"
    using fld_upd_const [OF u1, of prev p] x0 by simp
  have "is_buf s1 b" using bb is_buf_upd [OF u1] by simp
  then obtain x1 where r1: "rd s1 b = Inr x1" by (auto simp: is_buf_iff)
  have f1: "fld next s1 b = Some (next x1)" "fld prev s1 b = Some (prev x1)"
    using r1 by (simp_all add: fld_def)
  have x1: "next x1 = n" "prev x1 = p'"
    using f1 n p' unfolding N1 P1 by simp_all
  have "is_buf s1 p'" using bp is_buf_upd [OF u1] by simp
  from upd_is_buf [OF this] obtain s2 where
    u2: "upd (prev x1) (\<lambda>y. y\<lparr>next := next x1\<rparr>) s1 = Inr s2" unfolding x1 by blast
  have N2: "fld next s2 = (fld next s)(p' \<mapsto> n)"
    using fld_upd_const [OF u2, of "next" n] N1 x1 by simp
  have h2: "next (bcache_head s2) = m" using m N2 fld_Head [of "next" s2] by simp
  have "is_buf s2 b" using bb is_buf_upd [OF u1] is_buf_upd [OF u2] by simp
  from upd_is_buf [OF this] obtain s3 where
    u3: "upd b (\<lambda>y. y\<lparr>next := next (bcache_head s2)\<rparr>) s2 = Inr s3" by blast
  have N3: "fld next s3 = (fld next s)(p' \<mapsto> n, b \<mapsto> m)"
    using fld_upd_const [OF u3, of "next" m] N2 h2 by simp
  have "is_buf s3 b" using bb is_buf_upd [OF u1] is_buf_upd [OF u2] is_buf_upd [OF u3] by simp
  from upd_is_buf [OF this] obtain s4 where
    u4: "upd b (\<lambda>y. y\<lparr>prev := Head\<rparr>) s3 = Inr s4" by blast
  have N4: "fld next s4 = fld next s3" by (rule fld_upd_keep [OF u4]) simp
  have h4: "next (bcache_head s4) = m'" using m' N3 N4 fld_Head [of "next" s4] by simp
  have "is_buf s4 m'"
    using bm is_buf_upd [OF u1] is_buf_upd [OF u2] is_buf_upd [OF u3] is_buf_upd [OF u4] by simp
  from upd_is_buf [OF this] obtain s5 where
    u5: "upd (next (bcache_head s4)) (\<lambda>y. y\<lparr>prev := b\<rparr>) s4 = Inr s5" unfolding h4 by blast
  have "brelse_move b s = Inr (s5\<lparr>bcache_head := (bcache_head s5)\<lparr>next := b\<rparr>\<rparr>)"
    using r0 u1 r1 u2 u3 u4 u5 by (simp add: brelse_move_def)
  then show ?thesis by blast
qed

lemma mru_list_around:
  assumes "mru_list s (xs @ b # ys)"
  shows "fld next s b = Some (hd (ys @ [Head]))"
    and "fld prev s b = Some (last (Head # xs))"
    and "fld next s Head = Some (hd (xs @ [b]))"
proof -
  from assms have c: "successively (linked s) ((Head # xs) @ (b # ys @ [Head]))"
    by (simp add: mru_list_def)
  then have 1: "linked s (last (Head # xs)) b" and 2: "successively (linked s) (b # ys @ [Head])"
    unfolding successively_append_iff by simp_all
  from 2 have 3: "linked s b (hd (ys @ [Head]))" by (simp add: successively_Cons)
  from c have "successively (linked s) (Head # (xs @ [b]) @ (ys @ [Head]))" by simp
  then have 4: "linked s Head (hd (xs @ [b]))"
    by (cases xs) simp_all
  show "fld next s b = Some (hd (ys @ [Head]))" using 3 by (simp add: linked_def)
  show "fld prev s b = Some (last (Head # xs))" using 1 by (simp add: linked_def)
  show "fld next s Head = Some (hd (xs @ [b]))" using 4 by (simp add: linked_def)
qed

lemma brelse_move_mru:
  assumes m: "mru_list s (xs @ b # ys)" and ne: "xs \<noteq> []"
  shows "\<exists>s'. brelse_move b s = Inr s' \<and> mru_list s' (b # xs @ ys)"
proof -
  let ?n = "hd (ys @ [Head])" and ?p = "last xs" and ?m = "hd xs"
  have d: "distinct (Head # xs @ b # ys)" using m by (auto simp: mru_list_def)
  have mem: "?p \<in> set xs" "?m \<in> set xs" using ne by simp_all
  have n_cases: "?n = Head \<or> ?n \<in> set ys" by (cases ys) auto
  have n: "fld next s b = Some ?n" and p: "fld prev s b = Some ?p"
    and h: "fld next s Head = Some ?m"
    using mru_list_around [OF m] ne by simp_all
  have bn: "is_buf s ?n" using n_cases by (auto intro: mru_list_is_buf [OF m])
  have bp: "is_buf s ?p" using mem by (auto intro: mru_list_is_buf [OF m])
  have bm: "is_buf s ?m" using mem by (auto intro: mru_list_is_buf [OF m])
  have p': "((fld prev s)(?n \<mapsto> ?p)) b = Some ?p" using p d n_cases by auto
  have m1: "((fld next s)(?p \<mapsto> ?n)) Head = Some ?m" using h d mem by auto
  have m2: "((fld next s)(?p \<mapsto> ?n, b \<mapsto> ?m)) Head = Some ?m" using h d mem by auto
  from brelse_move_ok [OF n p bn p' bp m1 m2 bm]
  obtain s' where s': "brelse_move b s = Inr s'" by blast
  from brelse_move_links [OF s'] obtain n0 p0 p0' m0 m0' where l:
    "fld next s b = Some n0" "fld prev s b = Some p0"
    "((fld prev s)(n0 \<mapsto> p0)) b = Some p0'"
    "((fld next s)(p0' \<mapsto> n0)) Head = Some m0"
    "((fld next s)(p0' \<mapsto> n0, b \<mapsto> m0)) Head = Some m0'"
    "fld next s' = (fld next s)(p0' \<mapsto> n0, b \<mapsto> m0, Head \<mapsto> b)"
    "fld prev s' = (fld prev s)(n0 \<mapsto> p0, b \<mapsto> Head, m0' \<mapsto> b)"
    by blast
  have e1: "n0 = ?n" "p0 = ?p" using l(1,2) n p by simp_all
  have e2: "p0' = ?p" using l(3) p' unfolding e1 by simp
  have e3: "m0 = ?m" using l(4) m1 unfolding e1 e2 by simp
  have e4: "m0' = ?m" using l(5) m2 unfolding e1 e2 e3 by simp
  have N': "fld next s' = (fld next s)(?p \<mapsto> ?n, b \<mapsto> ?m, Head \<mapsto> b)"
    using l(6) unfolding e1 e2 e3 .
  have P': "fld prev s' = (fld prev s)(?n \<mapsto> ?p, b \<mapsto> Head, ?m \<mapsto> b)"
    using l(7) unfolding e1 e2 e3 e4 .
  have c: "successively (\<lambda>x y. fld next s x = Some y \<and> fld prev s y = Some x)
             (Head # xs @ b # ys @ [Head])"
    using m by (simp add: mru_list_def linked_def [abs_def])
  have "successively (\<lambda>x y. fld next s' x = Some y \<and> fld prev s' y = Some x)
          (Head # b # xs @ ys @ [Head])"
    by (rule move_to_front [OF c d ne N' P'])
  then have "successively (linked s') (Head # (b # xs @ ys) @ [Head])"
    by (simp add: linked_def [abs_def])
  moreover have "length (bcache_buf s') = NBUF"
    using brelse_move_keeps(1) [OF s'] m by (simp add: mru_list_def)
  moreover have "distinct (b # xs @ ys)" using d by auto
  moreover have "set (b # xs @ ys) = set slots" using m by (auto simp: mru_list_def)
  ultimately have "mru_list s' (b # xs @ ys)" by (simp add: mru_list_def)
  with s' show ?thesis by blast
qed

lemma brelse_move_first:
  assumes m: "mru_list s (b # ys)" and s': "brelse_move b s = Inr s'"
  shows "fld next s' b = Some (hd (ys @ [Head]))" and "hd (ys @ [Head]) \<noteq> b"
proof -
  let ?n = "hd (ys @ [Head])"
  have d: "distinct (Head # b # ys)" using m by (auto simp: mru_list_def)
  have n_cases: "?n = Head \<or> ?n \<in> set ys" by (cases ys) auto
  then show nb: "?n \<noteq> b" using d by auto
  have n: "fld next s b = Some ?n" and p: "fld prev s b = Some Head"
    using mru_list_around [of s "[]" b ys] m by simp_all
  from s' obtain n0 p0 p0' m0 m0' where l:
    "fld next s b = Some n0" "fld prev s b = Some p0"
    "((fld prev s)(n0 \<mapsto> p0)) b = Some p0'"
    "((fld next s)(p0' \<mapsto> n0)) Head = Some m0"
    "fld next s' = (fld next s)(p0' \<mapsto> n0, b \<mapsto> m0, Head \<mapsto> b)"
    by (rule brelse_move_links)
  have e1: "n0 = ?n" "p0 = Head" using l(1,2) n p by simp_all
  have e2: "p0' = Head" using l(3) p nb unfolding e1 by simp
  have e3: "m0 = ?n" using l(4) unfolding e1 e2 by simp
  show "fld next s' b = Some ?n" using d unfolding l(5) e1 e2 e3 by auto
qed

lemma brelse_move_Head:
  assumes "brelse_move b s = Inr s'"
  shows "next (bcache_head s') = b"
proof -
  from assms obtain n p' m where
    "fld next s' = (fld next s)(p' \<mapsto> n, b \<mapsto> m, Head \<mapsto> b)"
    by (rule brelse_move_links)
  then have "fld next s' Head = Some b" by simp
  then show ?thesis by simp
qed

subsection \<open>brelse as a whole\<close>

lemma brelse_check_iff:
  "brelse_check b mru s = Inr s' \<longleftrightarrow>
     s' = s \<and> next (bcache_head s) = b \<and> fld prev s b = Some Head \<and>
     fld next s b = Some mru \<and> fld prev s mru = Some b"
  by (auto simp: brelse_check_def fld_def error_if_def split: sum.splits if_splits)

lemma word_pred_zero: "x - 1 = (0::uint) \<longleftrightarrow> x = 1"
  by auto

lemma brelse_eq:
  assumes l: "bcache_lock s \<noteq> 1"
    and u: "upd b (\<lambda>y. y\<lparr>refcnt := refcnt y - 1\<rparr>) (s\<lparr>bcache_lock := 1\<rparr>) = Inr s1"
    and r: "rd s b = Inr x"
  shows "brelse b s =
     (if refcnt x = 1
      then bindE (brelse_move b s1) (\<lambda>s2.
           bindE (brelse_check b (next (bcache_head s1)) s2) (\<lambda>s3. Inr (s3\<lparr>bcache_lock := 0\<rparr>)))
      else Inr (s1\<lparr>bcache_lock := 0\<rparr>))"
proof -
  have r1: "rd s1 b = Inr (x\<lparr>refcnt := refcnt x - 1\<rparr>)"
    using rd_upd_same [OF u] r by simp
  have l1: "bcache_lock s1 = 1" using upd_lock [OF u] by simp
  show ?thesis
  proof (cases "refcnt x = 1")
    case False
    then show ?thesis using l u r1 l1 by (simp add: brelse_def Let_def word_pred_zero)
  next
    case True
    show ?thesis
    proof (cases "brelse_move b s1")
      case (Inl e)
      then show ?thesis using l u r1 True by (simp add: brelse_def Let_def)
    next
      case (Inr s2)
      have "fld refcnt s2 = fld refcnt s1" by (rule brelse_move_keeps(4) [OF Inr]) simp_all
      then have "fld refcnt s2 b = Some 0" using r1 True by (simp add: fld_def)
      then obtain x2 where r2: "rd s2 b = Inr x2" "refcnt x2 = 0" by (auto simp: fld_Some_iff)
      have l2: "bcache_lock s2 = 1" using brelse_move_keeps(2) [OF Inr] l1 by simp
      show ?thesis
      proof (cases "brelse_check b (next (bcache_head s1)) s2")
        case Inl
        then show ?thesis using l u r1 True Inr r2 by (simp add: brelse_def Let_def)
      next
        case (Inr s3)
        then have "s3 = s2" by (simp add: brelse_check_iff)
        then show ?thesis using l u r1 True \<open>brelse_move b s1 = Inr s2\<close> r2 l2 Inr
          by (simp add: brelse_def Let_def)
      qed
    qed
  qed
qed

lemma brelse_Inr_D:
  assumes "brelse b s = Inr s'"
  obtains x s1 where "bcache_lock s \<noteq> 1" "rd s b = Inr x"
    "upd b (\<lambda>y. y\<lparr>refcnt := refcnt y - 1\<rparr>) (s\<lparr>bcache_lock := 1\<rparr>) = Inr s1"
proof -
  from assms have l: "bcache_lock s \<noteq> 1" by (auto simp: brelse_def split: if_splits)
  with assms obtain s1 where
    u: "upd b (\<lambda>y. y\<lparr>refcnt := refcnt y - 1\<rparr>) (s\<lparr>bcache_lock := 1\<rparr>) = Inr s1"
    by (cases "upd b (\<lambda>y. y\<lparr>refcnt := refcnt y - 1\<rparr>) (s\<lparr>bcache_lock := 1\<rparr>)")
       (auto simp: brelse_def)
  from upd_Inr_is_buf [OF u] obtain x where r: "rd s b = Inr x" by (auto simp: is_buf_iff)
  show ?thesis by (rule that [OF l r u])
qed

lemma mru_list_first:
  assumes "mru_list s ps"
  shows "next (bcache_head s) = hd ps" and "hd ps \<in> set ps" and "hd ps \<noteq> Head"
proof -
  have ne: "ps \<noteq> []" using mru_list_length [OF assms] by (auto simp: NBUF_def)
  from mru_list_next [OF assms] have "fld next s Head = Some (hd (ps @ [Head]))"
    by (simp add: successively_Cons)
  then show "next (bcache_head s) = hd ps" using ne by simp
  show "hd ps \<in> set ps" using ne by simp
  then show "hd ps \<noteq> Head" using assms by (auto simp: mru_list_def)
qed

lemma brelse_mru_list:
  assumes m: "mru_list s ps" and s': "brelse b s = Inr s'"
  shows "mru_list s' (if fld refcnt s b = Some 1 then b # remove1 b ps else ps)"
proof -
  from s' obtain x s1 where l: "bcache_lock s \<noteq> 1" and r: "rd s b = Inr x"
    and u: "upd b (\<lambda>y. y\<lparr>refcnt := refcnt y - 1\<rparr>) (s\<lparr>bcache_lock := 1\<rparr>) = Inr s1"
    by (rule brelse_Inr_D)
  have "links s1 = links (s\<lparr>bcache_lock := 1\<rparr>)" by (rule upd_links [OF u]) simp_all
  then have k1: "links s1 = links s" by simp
  have m1: "mru_list s1 ps" using m mru_list_links [OF k1] by simp
  have f: "fld refcnt s b = Some (refcnt x)" using r by (simp add: fld_def)
  note e = brelse_eq [OF l u r]
  show ?thesis
  proof (cases "refcnt x = 1")
    case False
    then have "s' = s1\<lparr>bcache_lock := 0\<rparr>" using e s' by simp
    then show ?thesis using m1 mru_list_links [of s' s1 ps] f False by simp
  next
    case True
    from e s' True have "bindE (brelse_move b s1) (\<lambda>s2.
           bindE (brelse_check b (next (bcache_head s1)) s2) (\<lambda>s3. Inr (s3\<lparr>bcache_lock := 0\<rparr>)))
           = Inr s'" by simp
    then obtain s2 where mv: "brelse_move b s1 = Inr s2"
      and ck: "brelse_check b (next (bcache_head s1)) s2 = Inr s2"
      and s'2: "s' = s2\<lparr>bcache_lock := 0\<rparr>"
      by (auto simp: bindE_eq_Inr brelse_check_iff)
    from ck have c: "fld next s2 b = Some (next (bcache_head s1))"
      by (simp add: brelse_check_iff)
    have "is_buf s b" using r by (simp add: is_buf_iff)
    then have "b = Head \<or> b \<in> set ps" using is_buf_mru_list [OF m] by simp
    then have "mru_list s2 (b # remove1 b ps)"
    proof
      assume b: "b = Head"
      have "next (bcache_head s2) = Head" using brelse_move_Head [OF mv] b by simp
      moreover have "next (bcache_head s2) = next (bcache_head s1)" using c b by simp
      ultimately have False using mru_list_first(1,3) [OF m1] by simp
      then show ?thesis ..
    next
      assume "b \<in> set ps"
      then obtain xs ys where ps: "ps = xs @ b # ys" by (auto simp: in_set_conv_decomp)
      have d: "distinct ps" using m by (simp add: mru_list_def)
      have rm: "remove1 b ps = xs @ ys" using d unfolding ps by (simp add: remove1_append)
      show ?thesis
      proof (cases "xs = []")
        case True
        from brelse_move_first [OF m1 [unfolded ps True append_Nil] mv]
        have "fld next s2 b = Some (hd (ys @ [Head]))" "hd (ys @ [Head]) \<noteq> b" by simp_all
        moreover have "next (bcache_head s1) = b"
          using mru_list_around(3) [OF m1 [unfolded ps]] True by simp
        ultimately show ?thesis using c by simp
      next
        case False
        from brelse_move_mru [OF m1 [unfolded ps] False] mv
        show ?thesis unfolding rm by simp
      qed
    qed
    then show ?thesis using s'2 mru_list_links [of s' s2] f True by simp
  qed
qed




subsection \<open>binit\<close>

lemma binit_mru_list:
  assumes "length (bcache_buf s0) = NBUF"
  shows "\<exists>s. binit s0 = Inr s \<and> mru_list s [Buf 2, Buf 1, Buf 0]"
proof -
  from assms obtain b0 b1 b2 where b: "bcache_buf s0 = [b0, b1, b2]"
    by (auto simp: NBUF_def length_Suc_conv numeral_3_eq_3)
  have e: "{Buf 2, Buf (Suc 0), Buf 0} = {Buf 0, Buf (Suc 0), Buf (Suc (Suc 0))}"
    by (auto simp: numeral_2_eq_2)
  show ?thesis
    by (simp add: binit_def binit_link_def binit_check_buf_def b NBUF_def mru_list_def
        linked_def fld_def slots_def upt_rec e)
qed

subsection \<open>The invariant of the list\<close>

lemma successively_succ:
  "successively P l \<Longrightarrow> x \<in> set (butlast l) \<Longrightarrow> \<exists>z. P x z"
  by (induction l rule: induct_list012) (auto split: if_splits)

lemma successively_pred:
  "successively P l \<Longrightarrow> y \<in> set (tl l) \<Longrightarrow> \<exists>z. P z y"
  by (induction l rule: induct_list012) (auto split: if_splits)

lemma mru_list_consistent:
  assumes m: "mru_list s ps" and x: "x \<in> set (Head # ps)" and y: "y \<in> set (Head # ps)"
  shows "fld next s x = Some y \<longleftrightarrow> fld prev s y = Some x"
proof
  from m have c: "successively (linked s) (Head # ps @ [Head])" by (simp add: mru_list_def)
  have bl: "butlast (Head # ps @ [Head]) = Head # ps" by (simp add: butlast_append)
  have tl: "set (tl (Head # ps @ [Head])) = set (Head # ps)" by auto
  {
    assume a: "fld next s x = Some y"
    from successively_succ [OF c, of x] x obtain z where "linked s x z" unfolding bl by blast
    then show "fld prev s y = Some x" using a by (simp add: linked_def)
  next
    assume a: "fld prev s y = Some x"
    from successively_pred [OF c, of y] y obtain z where "linked s z y" unfolding tl by blast
    then show "fld next s x = Some y" using a by (simp add: linked_def)
  }
qed

lemma lru_ok_meaning:
  assumes "lru_ok s"
  shows "\<exists>ps. walk next s NBUF (next (bcache_head s)) = Some ps \<and>
              walk prev s NBUF (prev (bcache_head s)) = Some (rev ps) \<and>
              distinct ps \<and> set ps = set slots \<and> length ps = NBUF \<and>
              (\<forall>x\<in>set (Head # ps). \<forall>y\<in>set (Head # ps).
                 fld next s x = Some y \<longleftrightarrow> fld prev s y = Some x)"
proof -
  from assms obtain ps where w: "walk next s NBUF (next (bcache_head s)) = Some ps"
    "walk prev s NBUF (prev (bcache_head s)) = Some (rev ps)" and m: "mru_list s ps"
    by (auto simp: lru_ok_def split: option.splits)
  have "distinct ps" "set ps = set slots" using m by (simp_all add: mru_list_def)
  moreover note mru_list_length [OF m] mru_list_consistent [OF m]
  ultimately show ?thesis using w by blast
qed

lemma binit_lru_ok:
  assumes "length (bcache_buf s0) = NBUF"
  shows "\<exists>s. binit s0 = Inr s \<and> lru_ok s"
  using binit_mru_list [OF assms] mru_list_lru_ok by blast

lemma brelse_lru_ok:
  assumes "lru_ok s" and "brelse b s = Inr s'"
  shows "lru_ok s'"
proof -
  from assms(1) obtain ps where "mru_list s ps" by (auto simp: lru_ok_iff)
  from brelse_mru_list [OF this assms(2)] show ?thesis by (rule mru_list_lru_ok)
qed

subsection \<open>Facts for the claims\<close>

lemma brelse_check_error:
  assumes "is_buf s b" and "fld next s b \<noteq> Some mru"
  shows "brelse_check b mru s = Inl VERIFIER_error"
  using assms
  by (auto simp: brelse_check_def is_buf_iff fld_def error_if_def split: sum.splits)

lemma brelse_front_error:
  assumes ok: "lru_ok s" and l: "bcache_lock s \<noteq> 1" and f: "fld refcnt s b = Some 1"
    and n: "b = next (bcache_head s)"
  shows "brelse b s = Inl VERIFIER_error"
proof -
  from ok obtain ps where m: "mru_list s ps" by (auto simp: lru_ok_iff)
  have "ps \<noteq> []" using mru_list_first(2) [OF m] by auto
  then have ps: "ps = b # tl ps" using mru_list_first(1) [OF m] n by (cases ps) auto
  define ys where "ys = tl ps"
  have m0: "mru_list s (b # ys)" using m ps ys_def by simp
  from f obtain x where r: "rd s b = Inr x" and x: "refcnt x = 1" by (auto simp: fld_Some_iff)
  then have "is_buf (s\<lparr>bcache_lock := 1\<rparr>) b" by (simp add: is_buf_iff)
  from upd_is_buf [OF this] obtain s1 where
    u: "upd b (\<lambda>y. y\<lparr>refcnt := refcnt y - 1\<rparr>) (s\<lparr>bcache_lock := 1\<rparr>) = Inr s1" by blast
  have "links s1 = links (s\<lparr>bcache_lock := 1\<rparr>)" by (rule upd_links [OF u]) simp_all
  then have k1: "links s1 = links s" by simp
  have m1: "mru_list s1 (b # ys)" using m0 mru_list_links [OF k1] by simp
  have h1: "next (bcache_head s1) = b" using mru_list_first(1) [OF m1] by simp
  let ?n = "hd (ys @ [Head])"
  have d: "distinct (Head # b # ys)" using m1 by (auto simp: mru_list_def)
  have n_cases: "?n = Head \<or> ?n \<in> set ys" by (cases ys) auto
  then have nb: "?n \<noteq> b" using d by auto
  have fn: "fld next s1 b = Some ?n" and fp: "fld prev s1 b = Some Head"
    using mru_list_around [of s1 "[]" b ys] m1 by simp_all
  have bn: "is_buf s1 ?n" using n_cases by (auto intro: mru_list_is_buf [OF m1])
  have bh: "is_buf s1 Head" by (simp add: is_buf_def)
  have p': "((fld prev s1)(?n \<mapsto> Head)) b = Some Head" using fp nb by simp
  have m1': "((fld next s1)(Head \<mapsto> ?n)) Head = Some ?n" by simp
  have m2': "((fld next s1)(Head \<mapsto> ?n, b \<mapsto> ?n)) Head = Some ?n" using d by simp
  from brelse_move_ok [OF fn fp bn p' bh m1' m2' bn]
  obtain s2 where mv: "brelse_move b s1 = Inr s2" by blast
  from brelse_move_first [OF m1 mv] nb have "fld next s2 b \<noteq> Some b" by simp
  moreover have "is_buf s2 b"
    using brelse_move_first(1) [OF m1 mv] by (auto simp: fld_Some_iff is_buf_iff)
  ultimately have "brelse_check b (next (bcache_head s1)) s2 = Inl VERIFIER_error"
    unfolding h1 by (intro brelse_check_error)
  then show ?thesis using brelse_eq [OF l u r] x mv by simp
qed

lemma bget_hit_calls: "bget_hit b s = Inr (b', s') \<Longrightarrow> iderw_calls s' = iderw_calls s"
  apply (clarsimp simp del: seqE.simps simp: bget_hit_def bindE_eq_Inr)
  apply (erule seqE_preserves [where f = iderw_calls])
  apply (auto dest: upd_calls dest!: error_if_Inr)
  done

lemma bget_rebind_calls:
  "bget_rebind d bn b s = Inr (b', s') \<Longrightarrow> iderw_calls s' = iderw_calls s"
  apply (clarsimp simp del: seqE.simps simp: bget_rebind_def bindE_eq_Inr)
  apply (erule seqE_preserves [where f = iderw_calls])
  apply (auto dest: upd_calls dest!: error_if_Inr)
  done

lemma bget_calls: "bget d bn s = Some (Inr (b, s')) \<Longrightarrow> iderw_calls s' = iderw_calls s"
  by (auto simp: bget_def Let_def split: if_splits option.splits sum.splits
      dest: bget_hit_calls bget_rebind_calls)

lemma bget_Inr_cases:
  assumes "bget d bn s = Some (Inr (b, s'))"
  obtains (hit) x where "rd s b = Inr x" "is_cached d bn x" "b \<noteq> Head"
      "upd b (\<lambda>y. y\<lparr>refcnt := refcnt y + 1, lock := 1\<rparr>) (s\<lparr>bcache_lock := 0\<rparr>) = Inr s'"
  | (miss) x where "rd s b = Inr x" "is_recyclable x" "b \<noteq> Head"
      "upd b (\<lambda>y. y\<lparr>dev := d, blockno := bn, dirty := 0, valid := 0, refcnt := 1, lock := 1\<rparr>)
         (s\<lparr>bcache_lock := 0\<rparr>) = Inr s'"
  | (none) "b = Null" "s' = s\<lparr>bcache_lock := 1\<rparr>"
proof -
  let ?s = "s\<lparr>bcache_lock := 1\<rparr>"
  have l: "bcache_lock ?s \<noteq> 0" by simp
  from assms have nl: "bcache_lock s \<noteq> 1" by (auto simp: bget_def split: if_splits)
  from assms nl obtain c where c: "bget_cached d bn ?s = Some (Inr c)"
    by (auto simp: bget_def Let_def split: option.splits sum.splits)
  show ?thesis
  proof (cases "c = Head")
    case False
    with assms nl c have h: "bget_hit c ?s = Inr (b, s')" by (simp add: bget_def)
    then have u: "upd c (\<lambda>y. y\<lparr>refcnt := refcnt y + 1, lock := 1\<rparr>) (s\<lparr>bcache_lock := 0\<rparr>) = Inr s'"
      and cb: "c = b"
      unfolding bget_hit_eq [OF l] by (auto simp: bindE_eq_Inr)
    from scan_found [OF c [unfolded bget_cached_def] False]
    obtain x where "rd s c = Inr x" "is_cached d bn x" by auto
    then show ?thesis using hit u cb False by blast
  next
    case True
    with assms nl c obtain c' where c': "bget_recycle ?s = Some (Inr c')"
      by (auto simp: bget_def Let_def split: option.splits sum.splits)
    show ?thesis
    proof (cases "c' = Head")
      case F2: False
      with assms nl c True c' have h: "bget_rebind d bn c' ?s = Inr (b, s')"
        by (simp add: bget_def)
      then have u: "upd c' (\<lambda>y. y\<lparr>dev := d, blockno := bn, dirty := 0, valid := 0,
            refcnt := 1, lock := 1\<rparr>) (s\<lparr>bcache_lock := 0\<rparr>) = Inr s'"
        and cb: "c' = b"
        unfolding bget_rebind_eq [OF l] by (auto simp: bindE_eq_Inr)
      from scan_found [OF c' [unfolded bget_recycle_def] F2]
      obtain x where "rd s c' = Inr x" "is_recyclable x" by auto
      then show ?thesis using miss u cb F2 by blast
    next
      case T2: True
      with assms nl c True c' have "b = Null" "s' = ?s" by (simp_all add: bget_def)
      then show ?thesis by (rule none)
    qed
  qed
qed


subsection \<open>Word arithmetic\<close>

lemma word_succ_ge_1: "(r::uint) \<noteq> 4294967295 \<Longrightarrow> 1 \<le> r + 1"
proof -
  assume a: "r \<noteq> 4294967295"
  have e: "(- 1 :: uint) = 4294967295" by simp
  have "r \<noteq> - 1" unfolding e by (rule a)
  then show ?thesis by (meson linorder_le_less_linear max_word_wrap word_less_1)
qed

section \<open>Release of a slot that nobody holds\<close>

text \<open>
  Claim C9. \<^verbatim>\<open>brelse\<close> on a slot whose \<^verbatim>\<open>refcnt\<close> is 0, called with the global lock
  free and a pointer to a slot or to the sentinel: \<^verbatim>\<open>b->refcnt--\<close> wraps to
  \<open>2 ^ 32 - 1\<close>, the function returns without error, the slot is not moved (the
  sentinel's links and every other slot are as before, the slot itself differs in
  \<^verbatim>\<open>refcnt\<close> only), and the global lock is 0 afterwards.
\<close>

theorem brelse_unreferenced_wraps:
  assumes "bcache_lock s \<noteq> 1" and "rd s b = Inr x" and "refcnt x = 0"
  shows "\<exists>s' x'. brelse b s = Inr s' \<and> rd s' b = Inr x' \<and>
           x' = x\<lparr>refcnt := refcnt x - 1\<rparr> \<and> unat (refcnt x') = 2 ^ 32 - 1 \<and>
           next (bcache_head s') = next (bcache_head s) \<and>
           prev (bcache_head s') = prev (bcache_head s) \<and>
           (\<forall>p. p \<noteq> b \<longrightarrow> rd s' p = rd s p) \<and> bcache_lock s' = 0"
proof -
  let ?f = "\<lambda>y. y\<lparr>refcnt := refcnt y - 1\<rparr>"
  from assms(2) have r0: "rd (s\<lparr>bcache_lock := 1\<rparr>) b = Inr x" by simp
  then obtain s1 where s1: "upd b ?f (s\<lparr>bcache_lock := 1\<rparr>) = Inr s1"
    using upd_ok by blast
  have r1: "rd s1 b = Inr (?f x)" by (rule rd_upd_same [OF s1 r0])
  have nz: "refcnt (?f x) \<noteq> 0" using assms(3) by simp
  have l1: "bcache_lock s1 = 1" using upd_lock [OF s1] by simp
  have res: "brelse b s = Inr (s1\<lparr>bcache_lock := 0\<rparr>)"
    using assms(1) s1 r1 nz l1 by (simp add: brelse_def Let_def)
  have other: "\<forall>p. p \<noteq> b \<longrightarrow> rd (s1\<lparr>bcache_lock := 0\<rparr>) p = rd s p"
    using rd_upd_other [OF s1] by simp
  have hd: "rd (s1\<lparr>bcache_lock := 0\<rparr>) Head = Inr (if b = Head then ?f x else bcache_head s)"
    using r1 other by (cases "b = Head") auto
  have hx: "b = Head \<Longrightarrow> x = bcache_head s" using assms(2) by simp
  have un: "unat (refcnt (?f x)) = 2 ^ 32 - 1"
    using assms(3) by (simp add: unsigned_minus_1_eq_mask mask_eq_exp_minus_1)
  show ?thesis
    using res r1 other hd hx un
    by (intro exI [of _ "s1\<lparr>bcache_lock := 0\<rparr>"] exI [of _ "?f x"]) (auto split: if_splits)
qed

text \<open>
  The theorem at the call \<^verbatim>\<open>brelse(&bcache.buf[0])\<close> on the pool that \<^verbatim>\<open>binit\<close> built.
\<close>

theorem brelse_unreferenced_wraps_witness:
  "bcache_lock pool_init \<noteq> 1 \<and> rd pool_init (Buf 0) = Inr (bcache_buf pool_init ! 0) \<and>
   refcnt (bcache_buf pool_init ! 0) = 0 \<and>
   (\<exists>s' x'. brelse (Buf 0) pool_init = Inr s' \<and> rd s' (Buf 0) = Inr x' \<and>
      x' = (bcache_buf pool_init ! 0)\<lparr>refcnt := refcnt (bcache_buf pool_init ! 0) - 1\<rparr> \<and>
      unat (refcnt x') = 2 ^ 32 - 1 \<and>
      next (bcache_head s') = next (bcache_head pool_init) \<and>
      prev (bcache_head s') = prev (bcache_head pool_init) \<and>
      (\<forall>p. p \<noteq> Buf 0 \<longrightarrow> rd s' p = rd pool_init p) \<and> bcache_lock s' = 0)"
proof -
  have h1: "bcache_lock pool_init \<noteq> 1" by code_simp
  have h2: "rd pool_init (Buf 0) = Inr (bcache_buf pool_init ! 0)" by code_simp
  have h3: "refcnt (bcache_buf pool_init ! 0) = 0" by code_simp
  from brelse_unreferenced_wraps [OF h1 h2 h3] h1 h2 h3 show ?thesis by blast
qed

section \<open>Acquire leaves the ordering alone\<close>

text \<open>
  Claim C10. Whenever \<^verbatim>\<open>bget\<close> returns, on a hit, on a miss or with the null pointer,
  every \<^verbatim>\<open>prev\<close> and \<^verbatim>\<open>next\<close> pointer of every slot and of the sentinel is what it
  was before the call: the slot found or rebound stays where it is in the list. The same
  holds for \<^verbatim>\<open>bread\<close> and \<^verbatim>\<open>bwrite\<close>; only \<^verbatim>\<open>binit\<close> and \<^verbatim>\<open>brelse\<close> assign link
  fields.
\<close>

theorem bget_keeps_links:
  "(\<forall>d bn s b s'. bget d bn s = Some (Inr (b, s')) \<longrightarrow> links s' = links s) \<and>
   (\<forall>d bn s b s'. bread d bn s = Some (Inr (b, s')) \<longrightarrow> links s' = links s) \<and>
   (\<forall>b s s'. bwrite b s = Inr s' \<longrightarrow> links s' = links s)"
  using bget_links bread_links bwrite_links by blast

text \<open>
  The theorem at a hit (\<^verbatim>\<open>bget(0, 0)\<close> on the fresh pool finds slot 2), at a miss that
  rebinds (\<^verbatim>\<open>bget(20, 40)\<close> once slot 1 is dirty), at a miss that returns null
  (\<^verbatim>\<open>bget(10, 20)\<close> on the fresh pool), at \<^verbatim>\<open>bread(0, 0)\<close> and at \<^verbatim>\<open>bwrite\<close>.
\<close>

theorem bget_keeps_links_witness:
  "(\<exists>s'. bget 0 0 pool_init = Some (Inr (Buf 2, s')) \<and> links s' = links pool_init) \<and>
   (\<exists>s'. bget 20 40 pool_dirty1 = Some (Inr (Buf 1, s')) \<and> links s' = links pool_dirty1) \<and>
   (\<exists>s'. bget 10 20 pool_init = Some (Inr (Null, s')) \<and> links s' = links pool_init) \<and>
   (\<exists>s'. bread 0 0 pool_init = Some (Inr (Buf 2, s')) \<and> links s' = links pool_init) \<and>
   (\<exists>s'. bwrite (Buf 1) pool_init = Inr s' \<and> links s' = links pool_init)"
proof -
  have 1: "bget 0 0 pool_init = Some (Inr (Buf 2, after_ptr pool_init (bget 0 0 pool_init)))"
    by code_simp
  have 2: "bget 20 40 pool_dirty1 =
             Some (Inr (Buf 1, after_ptr pool_dirty1 (bget 20 40 pool_dirty1)))"
    by code_simp
  have 3: "bget 10 20 pool_init = Some (Inr (Null, after_ptr pool_init (bget 10 20 pool_init)))"
    by code_simp
  have 4: "bread 0 0 pool_init = Some (Inr (Buf 2, after_ptr pool_init (bread 0 0 pool_init)))"
    by code_simp
  have 5: "bwrite (Buf 1) pool_init = Inr (after pool_init (bwrite (Buf 1) pool_init))"
    by code_simp
  from bget_keeps_links 1 2 3 4 5 show ?thesis by blast
qed

section \<open>The ordering list stays whole\<close>

text \<open>
  Claim C6. \<^verbatim>\<open>binit\<close>, called on a cache with its \<^verbatim>\<open>NBUF\<close> slots, returns and
  establishes \<open>lru_ok\<close>; \<^verbatim>\<open>bget\<close>, \<^verbatim>\<open>bread\<close>, \<^verbatim>\<open>bwrite\<close> and \<^verbatim>\<open>brelse\<close>
  keep it whenever they return. \<open>lru_ok\<close> says what the claim says: walking from
  the sentinel along \<^verbatim>\<open>next\<close> visits a list \<open>ps\<close> of slots and comes back to the
  sentinel, walking along \<^verbatim>\<open>prev\<close> visits \<open>ps\<close> backwards, \<open>ps\<close> holds each of the
  \<^verbatim>\<open>NBUF\<close> slots exactly once, and among the slots and the sentinel
  \<^verbatim>\<open>x->next == y\<close> holds exactly when \<^verbatim>\<open>y->prev == x\<close>.
\<close>

theorem lru_ok_invariant:
  "(\<forall>s0::bcache. length (bcache_buf s0) = NBUF \<longrightarrow> (\<exists>s. binit s0 = Inr s \<and> lru_ok s)) \<and>
   (\<forall>s d bn b s'. lru_ok s \<and> bget d bn s = Some (Inr (b, s')) \<longrightarrow> lru_ok s') \<and>
   (\<forall>s d bn b s'. lru_ok s \<and> bread d bn s = Some (Inr (b, s')) \<longrightarrow> lru_ok s') \<and>
   (\<forall>s b s'. lru_ok s \<and> bwrite b s = Inr s' \<longrightarrow> lru_ok s') \<and>
   (\<forall>s b s'. lru_ok s \<and> brelse b s = Inr s' \<longrightarrow> lru_ok s') \<and>
   (\<forall>s. lru_ok s \<longrightarrow>
      (\<exists>ps. walk next s NBUF (next (bcache_head s)) = Some ps \<and>
            walk prev s NBUF (prev (bcache_head s)) = Some (rev ps) \<and>
            distinct ps \<and> set ps = set slots \<and> length ps = NBUF \<and>
            (\<forall>x\<in>set (Head # ps). \<forall>y\<in>set (Head # ps).
               fld next s x = Some y \<longleftrightarrow> fld prev s y = Some x)))"
proof (intro conjI allI impI)
  fix s0 :: bcache assume "length (bcache_buf s0) = NBUF"
  then show "\<exists>s. binit s0 = Inr s \<and> lru_ok s" by (rule binit_lru_ok)
next
  fix s d bn b s' assume "lru_ok s \<and> bget d bn s = Some (Inr (b, s'))"
  then show "lru_ok s'" using lru_ok_links [OF bget_links] by blast
next
  fix s d bn b s' assume "lru_ok s \<and> bread d bn s = Some (Inr (b, s'))"
  then show "lru_ok s'" using lru_ok_links [OF bread_links] by blast
next
  fix s b s' assume "lru_ok s \<and> bwrite b s = Inr s'"
  then show "lru_ok s'" using lru_ok_links [OF bwrite_links] by blast
next
  fix s b s' assume "lru_ok s \<and> brelse b s = Inr s'"
  then show "lru_ok s'" using brelse_lru_ok by blast
next
  fix s assume "lru_ok s"
  then show "\<exists>ps. walk next s NBUF (next (bcache_head s)) = Some ps \<and>
            walk prev s NBUF (prev (bcache_head s)) = Some (rev ps) \<and>
            distinct ps \<and> set ps = set slots \<and> length ps = NBUF \<and>
            (\<forall>x\<in>set (Head # ps). \<forall>y\<in>set (Head # ps).
               fld next s x = Some y \<longleftrightarrow> fld prev s y = Some x)"
    by (rule lru_ok_meaning)
qed

text \<open>
  The theorem along \<^verbatim>\<open>binit(); bwrite(&bcache.buf[1]); bget(20, 40);
  brelse(&bcache.buf[1]);\<close>, where the release moves slot 1 to the front, and at
  \<^verbatim>\<open>bread(0, 0)\<close> on the fresh pool.
\<close>

theorem lru_ok_invariant_witness:
  "length (bcache_buf bcache0) = NBUF \<and> binit bcache0 = Inr pool_init \<and> lru_ok pool_init \<and>
   bget 20 40 pool_dirty1 = Some (Inr (Buf 1, pool_held1)) \<and> lru_ok pool_dirty1 \<and>
   lru_ok pool_held1 \<and>
   bread 0 0 pool_init = Some (Inr (Buf 2, pool_read)) \<and> lru_ok pool_read \<and>
   bwrite (Buf 1) pool_init = Inr pool_dirty1 \<and>
   brelse (Buf 1) pool_held1 = Inr (after pool_held1 (brelse (Buf 1) pool_held1)) \<and>
   lru_ok (after pool_held1 (brelse (Buf 1) pool_held1)) \<and>
   walk next (after pool_held1 (brelse (Buf 1) pool_held1)) NBUF
      (next (bcache_head (after pool_held1 (brelse (Buf 1) pool_held1))))
     = Some [Buf 1, Buf 2, Buf 0] \<and>
   (\<exists>ps. walk next pool_init NBUF (next (bcache_head pool_init)) = Some ps \<and>
         walk prev pool_init NBUF (prev (bcache_head pool_init)) = Some (rev ps) \<and>
         distinct ps \<and> set ps = set slots \<and> length ps = NBUF \<and>
         (\<forall>x\<in>set (Head # ps). \<forall>y\<in>set (Head # ps).
            fld next pool_init x = Some y \<longleftrightarrow> fld prev pool_init y = Some x))"
proof -
  have 0: "length (bcache_buf bcache0) = NBUF" by code_simp
  have 1: "binit bcache0 = Inr pool_init" by code_simp
  have 2: "bwrite (Buf 1) pool_init = Inr pool_dirty1" by code_simp
  have 3: "bget 20 40 pool_dirty1 = Some (Inr (Buf 1, pool_held1))" by code_simp
  have 4: "bread 0 0 pool_init = Some (Inr (Buf 2, pool_read))" by code_simp
  have 5: "brelse (Buf 1) pool_held1 = Inr (after pool_held1 (brelse (Buf 1) pool_held1))"
    by code_simp
  have 6: "walk next (after pool_held1 (brelse (Buf 1) pool_held1)) NBUF
      (next (bcache_head (after pool_held1 (brelse (Buf 1) pool_held1))))
     = Some [Buf 1, Buf 2, Buf 0]" by code_simp
  note t = lru_ok_invariant
  note t_init = t [THEN conjunct1, rule_format]
  note t_bget = t [THEN conjunct2, THEN conjunct1, rule_format]
  note t_bread = t [THEN conjunct2, THEN conjunct2, THEN conjunct1, rule_format]
  note t_bwrite = t [THEN conjunct2, THEN conjunct2, THEN conjunct2, THEN conjunct1, rule_format]
  note t_brelse = t [THEN conjunct2, THEN conjunct2, THEN conjunct2, THEN conjunct2,
      THEN conjunct1, rule_format]
  note t_walk = t [THEN conjunct2, THEN conjunct2, THEN conjunct2, THEN conjunct2,
      THEN conjunct2, THEN spec, THEN mp]
  from t_init [OF 0] 1 have a: "lru_ok pool_init" by auto
  have b: "lru_ok pool_dirty1" by (rule t_bwrite [OF conjI [OF a 2]])
  have c: "lru_ok pool_held1" by (rule t_bget [OF conjI [OF b 3]])
  have d: "lru_ok pool_read" by (rule t_bread [OF conjI [OF a 4]])
  have e: "lru_ok (after pool_held1 (brelse (Buf 1) pool_held1))"
    by (rule t_brelse [OF conjI [OF c 5]])
  note f = t_walk [OF a]
  from 0 1 2 3 4 5 6 a b c d e f show ?thesis by (intro conjI)
qed

section \<open>Release moves the slot to the front\<close>




section \<open>What Release unlocks\<close>

text \<open>
  Claim C5, as the code has it. When \<^verbatim>\<open>brelse\<close> returns, \<^verbatim>\<open>bcache.lock\<close> is 0, and
  the \<^verbatim>\<open>lock\<close> flag of every slot is what it was before the call: \<^verbatim>\<open>brelse\<close> has no
  assignment to \<^verbatim>\<open>b->lock\<close>, so a slot that \<^verbatim>\<open>bget\<close> locked stays locked.
\<close>

theorem brelse_unlocks_global_only:
  assumes "brelse b s = Inr s'"
  shows "bcache_lock s' = 0 \<and> fld lock s' = fld lock s"
proof -
  from assms obtain x s1 where l: "bcache_lock s \<noteq> 1" and r: "rd s b = Inr x"
    and u: "upd b (\<lambda>y. y\<lparr>refcnt := refcnt y - 1\<rparr>) (s\<lparr>bcache_lock := 1\<rparr>) = Inr s1"
    by (rule brelse_Inr_D)
  have f1: "fld lock s1 = fld lock s" using fld_upd_keep [OF u, of lock] by simp
  show ?thesis
  proof (cases "refcnt x = 1")
    case False
    then have "s' = s1\<lparr>bcache_lock := 0\<rparr>" using brelse_eq [OF l u r] assms by simp
    then show ?thesis using f1 by simp
  next
    case True
    from brelse_eq [OF l u r] assms True have "bindE (brelse_move b s1) (\<lambda>s2.
         bindE (brelse_check b (next (bcache_head s1)) s2) (\<lambda>s3. Inr (s3\<lparr>bcache_lock := 0\<rparr>)))
         = Inr s'" by simp
    then obtain s2 where mv: "brelse_move b s1 = Inr s2" and s'2: "s' = s2\<lparr>bcache_lock := 0\<rparr>"
      by (auto simp: bindE_eq_Inr brelse_check_iff)
    have "fld lock s2 = fld lock s1" by (rule brelse_move_keeps(4) [OF mv]) simp_all
    then show ?thesis using f1 s'2 by simp
  qed
qed

text \<open>The theorem at the release of slot 1, held once.\<close>

theorem brelse_unlocks_global_only_witness:
  "brelse (Buf 1) pool_held1 = Inr (after pool_held1 (brelse (Buf 1) pool_held1)) \<and>
   bcache_lock (after pool_held1 (brelse (Buf 1) pool_held1)) = 0 \<and>
   fld lock (after pool_held1 (brelse (Buf 1) pool_held1)) = fld lock pool_held1"
proof -
  have 1: "brelse (Buf 1) pool_held1 = Inr (after pool_held1 (brelse (Buf 1) pool_held1))"
    by code_simp
  from brelse_unlocks_global_only [OF 1] 1 show ?thesis by simp
qed

text \<open>
  The claim as the specification states it fails there: \<^verbatim>\<open>bget(20, 40)\<close> returned slot
  1 with \<^verbatim>\<open>lock == 1\<close>, and after \<^verbatim>\<open>brelse\<close> of that slot its \<^verbatim>\<open>lock\<close> is still 1.
\<close>

theorem brelse_keeps_slot_locked_counterexample:
  "bget 20 40 pool_dirty1 = Some (Inr (Buf 1, pool_held1)) \<and>
   fld lock pool_held1 (Buf 1) = Some 1 \<and>
   brelse (Buf 1) pool_held1 = Inr (after pool_held1 (brelse (Buf 1) pool_held1)) \<and>
   fld lock (after pool_held1 (brelse (Buf 1) pool_held1)) (Buf 1) = Some 1 \<and>
   bcache_lock (after pool_held1 (brelse (Buf 1) pool_held1)) = 0"
  by code_simp

section \<open>Acquire on a saturated pool\<close>

text \<open>
  Claim C7. On a well-formed list and with the global lock free, \<^verbatim>\<open>bget\<close> always
  returns (it neither loops nor reaches \<^verbatim>\<open>ERROR\<close>), and the pointer it returns is
  null exactly when no slot is bound to the wanted block and no slot passes the
  recycling test of line 169. A pointer that is not null points to a slot, so the two
  outcomes cannot be confused. On the null return the pool is unchanged but for
  \<^verbatim>\<open>bcache.lock\<close>, which line 148 set to 1.
\<close>

theorem bget_null_iff_saturated:
  assumes ok: "lru_ok s" and l: "bcache_lock s \<noteq> 1"
  shows "\<exists>b s'. bget d bn s = Some (Inr (b, s')) \<and>
           (b = Null \<longleftrightarrow>
              (\<forall>q\<in>set slots. fld (is_cached d bn) s q \<noteq> Some True \<and>
                              fld is_recyclable s q \<noteq> Some True)) \<and>
           (b = Null \<longrightarrow> s' = s\<lparr>bcache_lock := 1\<rparr>) \<and> (b \<noteq> Null \<longrightarrow> is_buf s' b)"
proof -
  let ?s = "s\<lparr>bcache_lock := 1\<rparr>"
  let ?C = "\<lambda>q. fld (is_cached d bn) s q = Some True"
  let ?R = "\<lambda>q. fld is_recyclable s q = Some True"
  from ok obtain ps where m: "mru_list s ps" by (auto simp: lru_ok_iff)
  have sl: "set ps = set slots" "set (rev ps) = set slots" using m by (simp_all add: mru_list_def)
  have l1: "bcache_lock ?s \<noteq> 0" by simp
  note g = bget_mru_list [OF m l, of d bn]
  have ok_upd: "\<exists>s'. upd b f (s\<lparr>bcache_lock := 0\<rparr>) = Inr s' \<and> is_buf s' b \<and> b \<noteq> Null"
    if "b \<in> set slots" for b f
  proof -
    from that have "is_buf s b" using mru_list_is_buf [OF m, of b] sl by simp
    then have i: "is_buf (s\<lparr>bcache_lock := 0\<rparr>) b" by (simp add: is_buf_iff)
    from upd_is_buf [OF i] obtain s' where u: "upd b f (s\<lparr>bcache_lock := 0\<rparr>) = Inr s'" by blast
    have "is_buf s' b" using is_buf_upd [OF u] i by simp
    moreover have "b \<noteq> Null" using that by auto
    ultimately show ?thesis using u by blast
  qed
  show ?thesis
  proof (cases "find ?C ps")
    case (Some b)
    then have b: "b \<in> set slots" "?C b" using sl by (auto dest: find_in_list)
    from ok_upd [OF b(1)] obtain s' where
      "upd b (\<lambda>y. y\<lparr>refcnt := refcnt y + 1, lock := 1\<rparr>) (s\<lparr>bcache_lock := 0\<rparr>) = Inr s'"
      "is_buf s' b" "b \<noteq> Null" by blast
    then have "bget d bn s = Some (Inr (b, s'))" using g Some by (simp add: bget_hit_eq [OF l1])
    moreover have "\<not> (\<forall>q\<in>set slots. \<not> ?C q \<and> \<not> ?R q)" using b by blast
    ultimately show ?thesis using \<open>is_buf s' b\<close> \<open>b \<noteq> Null\<close>
      by (intro exI [of _ b] exI [of _ s']) simp
  next
    case None
    then have nc: "\<forall>q\<in>set slots. \<not> ?C q" using sl by (simp add: find_None_iff)
    show ?thesis
    proof (cases "find ?R (rev ps)")
      case (Some b)
      then have b: "b \<in> set slots" "?R b" using sl by (auto dest: find_in_list)
      from ok_upd [OF b(1)] obtain s' where
        "upd b (\<lambda>y. y\<lparr>dev := d, blockno := bn, dirty := 0, valid := 0, refcnt := 1, lock := 1\<rparr>)
           (s\<lparr>bcache_lock := 0\<rparr>) = Inr s'"
        "is_buf s' b" "b \<noteq> Null" by blast
      then have "bget d bn s = Some (Inr (b, s'))"
        using g None Some by (simp add: bget_rebind_eq [OF l1])
      moreover have "\<not> (\<forall>q\<in>set slots. \<not> ?C q \<and> \<not> ?R q)" using b by blast
      ultimately show ?thesis using \<open>is_buf s' b\<close> \<open>b \<noteq> Null\<close>
        by (intro exI [of _ b] exI [of _ s']) simp
    next
      case N2: None
      then have nr: "\<forall>q\<in>set slots. \<not> ?R q" using sl(2) by (simp add: find_None_iff)
      have "bget d bn s = Some (Inr (Null, ?s))" using g None N2 by simp
      then show ?thesis using nc nr by simp
    qed
  qed
qed

text \<open>The theorem at \<^verbatim>\<open>bget(4, 4)\<close> on a pool whose three slots are all held.\<close>

theorem bget_null_iff_saturated_witness:
  "lru_ok pool_saturated \<and> bcache_lock pool_saturated \<noteq> 1 \<and>
   map (fld refcnt pool_saturated) slots = [Some 1, Some 1, Some 1] \<and>
   map (fld (is_cached 4 4) pool_saturated) slots = [Some False, Some False, Some False] \<and>
   map (fld is_recyclable pool_saturated) slots = [Some False, Some False, Some False] \<and>
   bget 4 4 pool_saturated = Some (Inr (Null, pool_saturated\<lparr>bcache_lock := 1\<rparr>))"
proof -
  have 1: "lru_ok pool_saturated" by code_simp
  have 2: "bcache_lock pool_saturated \<noteq> 1" by code_simp
  have 3: "map (fld refcnt pool_saturated) slots = [Some 1, Some 1, Some 1]" by code_simp
  have 5: "map (fld (is_cached 4 4) pool_saturated) slots = [Some False, Some False, Some False]"
    by code_simp
  have 6: "map (fld is_recyclable pool_saturated) slots = [Some False, Some False, Some False]"
    by code_simp
  have 4: "\<forall>q\<in>set slots. fld (is_cached 4 4) pool_saturated q \<noteq> Some True \<and>
                   fld is_recyclable pool_saturated q \<noteq> Some True" by code_simp
  from bget_null_iff_saturated [OF 1 2, of 4 4] obtain b s' where
    r: "bget 4 4 pool_saturated = Some (Inr (b, s'))"
    and n: "b = Null \<longleftrightarrow>
              (\<forall>q\<in>set slots. fld (is_cached 4 4) pool_saturated q \<noteq> Some True \<and>
                              fld is_recyclable pool_saturated q \<noteq> Some True)"
    and s: "b = Null \<longrightarrow> s' = pool_saturated\<lparr>bcache_lock := 1\<rparr>"
    by blast
  from n 4 have "b = Null" by (rule iffD2)
  with r s have "bget 4 4 pool_saturated = Some (Inr (Null, pool_saturated\<lparr>bcache_lock := 1\<rparr>))"
    by simp
  with 1 2 3 5 6 show ?thesis by (intro conjI)
qed

section \<open>What Acquire returns\<close>

text \<open>
  Claim C3, as the code has it. Whenever \<^verbatim>\<open>bget(d, bn)\<close> returns a pointer that is not
  null, the slot it points to has \<^verbatim>\<open>dev == d\<close> and \<^verbatim>\<open>blockno == bn\<close>, and its
  \<^verbatim>\<open>refcnt\<close> is the count \<open>r\<close> it had before the call plus one, modulo \<open>2 ^ 32\<close> (on
  the miss path \<open>r\<close> is 0 and the new count is 1). So \<^verbatim>\<open>refcnt >= 1\<close> holds unless
  \<open>r\<close> was \<open>2 ^ 32 - 1 = 4294967295\<close>, where \<^verbatim>\<open>b->refcnt++\<close> wraps to 0.
\<close>

theorem bget_returns_bound_slot:
  assumes "bget d bn s = Some (Inr (b, s'))" and "b \<noteq> Null"
  shows "fld dev s' b = Some d \<and> fld blockno s' b = Some bn \<and>
         (\<exists>r. fld refcnt s b = Some r \<and> fld refcnt s' b = Some (r + 1) \<and>
              (r \<noteq> 4294967295 \<longrightarrow> 1 \<le> r + 1) \<and> (r = 4294967295 \<longrightarrow> r + 1 = 0))"
  using assms(1)
proof (cases rule: bget_Inr_cases)
  case (hit x)
  have r0: "rd (s\<lparr>bcache_lock := 0\<rparr>) b = Inr x" using hit(1) by simp
  have "rd s' b = Inr (x\<lparr>refcnt := refcnt x + 1, lock := 1\<rparr>)"
    by (rule rd_upd_same [OF hit(4) r0])
  then show ?thesis using hit(1,2) word_succ_ge_1 [of "refcnt x"]
    by (auto simp: fld_def is_cached_def)
next
  case (miss x)
  have r0: "rd (s\<lparr>bcache_lock := 0\<rparr>) b = Inr x" using miss(1) by simp
  have "rd s' b = Inr (x\<lparr>dev := d, blockno := bn, dirty := 0, valid := 0, refcnt := 1, lock := 1\<rparr>)"
    by (rule rd_upd_same [OF miss(4) r0])
  then show ?thesis using miss(1,2) by (auto simp: fld_def is_recyclable_def)
next
  case none
  then show ?thesis using assms(2) by simp
qed

text \<open>The theorem at \<^verbatim>\<open>bget(20, 40)\<close>, which rebinds the dirty slot 1.\<close>

theorem bget_returns_bound_slot_witness:
  "bget 20 40 pool_dirty1 = Some (Inr (Buf 1, pool_held1)) \<and> Buf 1 \<noteq> Null \<and>
   fld dev pool_held1 (Buf 1) = Some 20 \<and> fld blockno pool_held1 (Buf 1) = Some 40 \<and>
   (\<exists>r. fld refcnt pool_dirty1 (Buf 1) = Some r \<and> fld refcnt pool_held1 (Buf 1) = Some (r + 1) \<and>
        (r \<noteq> 4294967295 \<longrightarrow> 1 \<le> r + 1) \<and> (r = 4294967295 \<longrightarrow> r + 1 = 0))"
proof -
  have 1: "bget 20 40 pool_dirty1 = Some (Inr (Buf 1, pool_held1))" by code_simp
  have 2: "Buf 1 \<noteq> Null" by simp
  from bget_returns_bound_slot [OF 1 2] 1 2 show ?thesis by simp
qed

text \<open>
  The claim as the specification states it fails after a release of a slot that nobody
  held: \<^verbatim>\<open>binit(); brelse(&bcache.buf[2]);\<close> leaves slot 2 (bound to device 0, block
  0, as every fresh slot) with \<^verbatim>\<open>refcnt == 4294967295\<close>, and \<^verbatim>\<open>bget(0, 0)\<close> then
  returns slot 2 with \<^verbatim>\<open>refcnt == 0\<close>.
\<close>

theorem bget_refcnt_wraps_counterexample:
  "brelse (Buf 2) pool_init = Inr pool_wrapped \<and>
   fld refcnt pool_wrapped (Buf 2) = Some 4294967295 \<and>
   returns (bget 0 0 pool_wrapped) \<and> result_ptr (bget 0 0 pool_wrapped) = Buf 2 \<and>
   fld dev (after_ptr pool_wrapped (bget 0 0 pool_wrapped)) (Buf 2) = Some 0 \<and>
   fld blockno (after_ptr pool_wrapped (bget 0 0 pool_wrapped)) (Buf 2) = Some 0 \<and>
   fld refcnt (after_ptr pool_wrapped (bget 0 0 pool_wrapped)) (Buf 2) = Some 0 \<and>
   \<not> (1 \<le> (0::uint))"
  by code_simp

section \<open>Read and the device\<close>

text \<open>
  Claim C4, as the code has it. Whenever \<^verbatim>\<open>bget\<close> returns a pointer to a slot,
  \<^verbatim>\<open>bread\<close> calls \<^verbatim>\<open>iderw\<close> on it exactly once, whatever the slot's \<^verbatim>\<open>valid\<close>
  flag was (the test around the call is commented out in the source), and returns the
  slot with \<^verbatim>\<open>valid == 1\<close>.
\<close>

theorem bread_always_calls_iderw:
  assumes "bget d bn s = Some (Inr (b, s1))" and "is_buf s1 b"
  shows "\<exists>s2. bread d bn s = Some (Inr (b, s2)) \<and> iderw_calls s2 = b # iderw_calls s \<and>
              fld valid s2 b = Some 1"
proof -
  from assms(2) have "is_buf (s1\<lparr>iderw_calls := b # iderw_calls s1\<rparr>) b"
    by (simp add: is_buf_iff)
  from upd_is_buf [OF this] obtain s2 where
    u: "upd b (\<lambda>y. y\<lparr>valid := 1\<rparr>) (s1\<lparr>iderw_calls := b # iderw_calls s1\<rparr>) = Inr s2" by blast
  from upd_eq_Inr [OF u] obtain x where r2: "rd s2 b = Inr (x\<lparr>valid := 1\<rparr>)" by blast
  have c: "iderw_calls s2 = b # iderw_calls s"
    using upd_calls [OF u] bget_calls [OF assms(1)] by simp
  have "bread d bn s = Some (Inr (b, s2))"
    using assms(1) u r2 by (simp add: bread_def iderw_def)
  then show ?thesis using c r2 by (simp add: fld_def)
qed

text \<open>The theorem at a second \<^verbatim>\<open>bread(0, 0)\<close>, when slot 2 is already valid.\<close>

theorem bread_always_calls_iderw_witness:
  "bget 0 0 pool_read = Some (Inr (Buf 2, after_ptr pool_read (bget 0 0 pool_read))) \<and>
   is_buf (after_ptr pool_read (bget 0 0 pool_read)) (Buf 2) \<and>
   (\<exists>s2. bread 0 0 pool_read = Some (Inr (Buf 2, s2)) \<and>
         iderw_calls s2 = Buf 2 # iderw_calls pool_read \<and> fld valid s2 (Buf 2) = Some 1)"
proof -
  have 1: "bget 0 0 pool_read = Some (Inr (Buf 2, after_ptr pool_read (bget 0 0 pool_read)))"
    by code_simp
  have 2: "is_buf (after_ptr pool_read (bget 0 0 pool_read)) (Buf 2)" by code_simp
  from bread_always_calls_iderw [OF 1 2] 1 2 show ?thesis by simp
qed

text \<open>
  The claim as the specification states it fails there: after \<^verbatim>\<open>binit(); bread(0, 0);\<close>
  the slot that \<^verbatim>\<open>bget(0, 0)\<close> returns is already valid, and a second
  \<^verbatim>\<open>bread(0, 0)\<close> calls \<^verbatim>\<open>iderw\<close> on it all the same.
\<close>

theorem bread_valid_slot_counterexample:
  "returns (bget 0 0 pool_read) \<and> result_ptr (bget 0 0 pool_read) = Buf 2 \<and>
   fld valid (after_ptr pool_read (bget 0 0 pool_read)) (Buf 2) = Some 1 \<and>
   returns (bread 0 0 pool_read) \<and> result_ptr (bread 0 0 pool_read) = Buf 2 \<and>
   iderw_calls pool_read = [Buf 2] \<and>
   iderw_calls (after_ptr pool_read (bread 0 0 pool_read)) = [Buf 2, Buf 2]"
  by code_simp

section \<open>Read on a saturated pool\<close>

text \<open>
  Claim C8. When \<^verbatim>\<open>bget\<close> returns the null pointer, \<^verbatim>\<open>bread\<close> passes it to
  \<^verbatim>\<open>iderw\<close>, whose \<^verbatim>\<open>b->valid = 1\<close> dereferences it: \<^verbatim>\<open>bread\<close> ends in the
  null-dereference outcome. And whenever \<^verbatim>\<open>bread\<close> does return, the pointer is not
  null, it is the one \<^verbatim>\<open>bget\<close> returned, and the slot is valid.
\<close>

theorem bread_null_deref:
  "(\<forall>d bn s s1. bget d bn s = Some (Inr (Null, s1)) \<longrightarrow> bread d bn s = Some (Inl NullDeref)) \<and>
   (\<forall>d bn s b s2. bread d bn s = Some (Inr (b, s2)) \<longrightarrow>
      b \<noteq> Null \<and> fld valid s2 b = Some 1 \<and> (\<exists>s1. bget d bn s = Some (Inr (b, s1))))"
proof (rule conjI; intro allI impI)
  fix d bn s s1 assume "bget d bn s = Some (Inr (Null, s1))"
  then show "bread d bn s = Some (Inl NullDeref)" by (simp add: bread_def iderw_def)
next
  fix d bn s b s2 assume a: "bread d bn s = Some (Inr (b, s2))"
  then obtain s1 x where g: "bget d bn s = Some (Inr (b, s1))" and i: "iderw b s1 = Inr s2"
    and r: "rd s2 b = Inr x" "valid x = 1"
    by (auto simp: bread_def bindE_eq_Inr split: option.splits sum.splits if_splits)
  from r have "b \<noteq> Null" by auto
  then show "b \<noteq> Null \<and> fld valid s2 b = Some 1 \<and> (\<exists>s1. bget d bn s = Some (Inr (b, s1)))"
    using g r by (simp add: fld_def)
qed

text \<open>
  The theorem on a pool whose three slots are all held, and at \<^verbatim>\<open>bread(0, 0)\<close> on the
  fresh pool.
\<close>

theorem bread_null_deref_witness:
  "map (fld refcnt pool_saturated) slots = [Some 1, Some 1, Some 1] \<and>
   bget 4 4 pool_saturated = Some (Inr (Null, pool_saturated\<lparr>bcache_lock := 1\<rparr>)) \<and>
   bread 4 4 pool_saturated = Some (Inl NullDeref) \<and>
   bread 0 0 pool_init = Some (Inr (Buf 2, pool_read)) \<and> Buf 2 \<noteq> Null \<and>
   fld valid pool_read (Buf 2) = Some 1 \<and>
   (\<exists>s1. bget 0 0 pool_init = Some (Inr (Buf 2, s1)))"
proof -
  have 0: "map (fld refcnt pool_saturated) slots = [Some 1, Some 1, Some 1]" by code_simp
  have 1: "bget 4 4 pool_saturated = Some (Inr (Null, pool_saturated\<lparr>bcache_lock := 1\<rparr>))"
    by code_simp
  have 2: "bread 0 0 pool_init = Some (Inr (Buf 2, pool_read))" by code_simp
  note t = bread_null_deref
  from t [THEN conjunct1, rule_format, OF 1]
  have 3: "bread 4 4 pool_saturated = Some (Inl NullDeref)" .
  from t [THEN conjunct2, rule_format, OF 2]
  have 4: "Buf 2 \<noteq> Null \<and> fld valid pool_read (Buf 2) = Some 1 \<and>
             (\<exists>s1. bget 0 0 pool_init = Some (Inr (Buf 2, s1)))" .
  from 0 1 3 2 4 show ?thesis by blast
qed

section \<open>Which slot Acquire recycles\<close>

text \<open>
  Claim C1 at the first call of \<^verbatim>\<open>main\<close>. After \<^verbatim>\<open>binit\<close> the least recently used
  slot is slot 0, with \<^verbatim>\<open>refcnt == 0\<close> and \<^verbatim>\<open>dirty == 0\<close>. \<^verbatim>\<open>bget(10, 20)\<close> finds no
  slot bound to (10, 20), and its second loop rebinds nothing: it returns the null
  pointer and leaves the pool as it was, with \<^verbatim>\<open>bcache.lock\<close> still 1. The test of
  line 169 asks for \<^verbatim>\<open>dirty == 1\<close>, against the comment above it (``recycle some unused
  buffer and clean buffer''). \<^verbatim>\<open>main\<close> itself then stops in \<^verbatim>\<open>bread(20, 40)\<close>, on the
  null pointer.
\<close>

theorem bget_skips_clean_unused_slot:
  "binit bcache0 = Inr pool_init \<and>
   prev (bcache_head pool_init) = Buf 0 \<and>
   fld refcnt pool_init (Buf 0) = Some 0 \<and> fld dirty pool_init (Buf 0) = Some 0 \<and>
   bget_cached 10 20 (pool_init\<lparr>bcache_lock := 1\<rparr>) = Some (Inr Head) \<and>
   bget 10 20 pool_init = Some (Inr (Null, pool_init\<lparr>bcache_lock := 1\<rparr>)) \<and>
   main = Some (Inl NullDeref)"
  by code_simp

end
